theory Spec2Isabelle
  imports Main "HOL-Library.Word" "HOL-Library.Multiset"
begin

section \<open>Data model of threads/synch.c\<close>

text \<open>
  Pointers are identifiers: a thread, a lock, a condition variable and a
  \<^verbatim>\<open>struct semaphore_elem\<close> are each named by a number, and the objects live in
  tables of the kernel state. A pointer that may be \<^verbatim>\<open>NULL\<close> is an option.
  A semaphore is addressed by where it is embedded: on its own, inside a lock
  (\<^verbatim>\<open>&lock->semaphore\<close>) or inside a condition-variable waiter
  (\<^verbatim>\<open>&waiter.semaphore\<close>).
\<close>

type_synonym tid = nat
type_synonym lid = nat
type_synonym cid = nat
type_synonym wid = nat

datatype sema_ptr = SemaAt nat | LockSema lid | WaiterSema wid

text \<open>
  Modelled from the spec: \<^verbatim>\<open>struct thread\<close> (threads/thread.h) is not among the
  sources. These are the fields synch.c reads and writes, typed as in the spec's data
  model, together with the scheduler's state of the thread (the spec's ready/blocked
  state machine). Priorities are only compared and copied, never computed with, so
  they are unbounded integers.
\<close>

datatype thread_status = THREAD_RUNNING | THREAD_READY | THREAD_BLOCKED

datatype intr_level = INTR_OFF | INTR_ON

record thread =
  priority :: int
  origin_priority :: int
  donations :: "tid list"
  wait_on_lock :: "lid option"
  status :: thread_status

text \<open>
  Modelled from the spec: \<^verbatim>\<open>struct semaphore\<close> (threads/synch.h) is not among the
  sources; the spec gives it a count and a waiter list. \<^verbatim>\<open>sema_init\<close> takes an
  \<^verbatim>\<open>unsigned\<close>, so the count is a 32-bit word and \<^verbatim>\<open>value++\<close>,
  \<^verbatim>\<open>value--\<close> wrap.
\<close>

record semaphore =
  sema_value :: "32 word"
  waiters :: "tid list"

text \<open>The calls synch.c makes into the scheduler, in the order they are made.\<close>

datatype sched_call = Block tid | Unblock tid | Preempt

text \<open>
  Modelled from the spec: \<^verbatim>\<open>struct lock\<close> and \<^verbatim>\<open>struct condition\<close>
  (threads/synch.h) are not among the sources; in the spec a lock is a holder and a
  semaphore, and a condition variable is a list of waiters. The kernel state holds
  the tables of these objects, the running thread (\<^verbatim>\<open>thread_current ()\<close>), the
  flag \<^verbatim>\<open>thread_mlfqs\<close>, whether an interrupt handler is running
  (\<^verbatim>\<open>intr_context ()\<close>) and the interrupt level.
\<close>

record kernel =
  threads :: "tid \<Rightarrow> thread"
  semas :: "sema_ptr \<Rightarrow> semaphore"
  holder :: "lid \<Rightarrow> tid option"
  cond_waiters :: "cid \<Rightarrow> wid list"
  cur :: tid
  thread_mlfqs :: bool
  in_intr_context :: bool
  intr :: intr_level
  sched_calls :: "sched_call list"

text \<open>
  \<^verbatim>\<open>ASSERT\<close> panics the kernel when its condition is false; dereferencing
  \<^verbatim>\<open>NULL\<close> faults; a non-void function that ends without \<^verbatim>\<open>return\<close> has no
  defined value. Each is an error result. A call that never returns (a thread
  that is never woken, a recursion that never ends) is \<open>None\<close>.
\<close>

datatype fault = Assertion_failed | Null_dereference | Undefined_value

type_synonym 'a result = "fault + 'a"

subsection \<open>Field writes\<close>

definition set_priority :: "tid \<Rightarrow> int \<Rightarrow> kernel \<Rightarrow> kernel" where
  "set_priority t p s = s\<lparr>threads := (threads s)(t := (threads s t)\<lparr>priority := p\<rparr>)\<rparr>"

definition set_donations :: "tid \<Rightarrow> tid list \<Rightarrow> kernel \<Rightarrow> kernel" where
  "set_donations t ds s = s\<lparr>threads := (threads s)(t := (threads s t)\<lparr>donations := ds\<rparr>)\<rparr>"

definition set_wait_on_lock :: "tid \<Rightarrow> lid option \<Rightarrow> kernel \<Rightarrow> kernel" where
  "set_wait_on_lock t l s = s\<lparr>threads := (threads s)(t := (threads s t)\<lparr>wait_on_lock := l\<rparr>)\<rparr>"

definition set_status :: "tid \<Rightarrow> thread_status \<Rightarrow> kernel \<Rightarrow> kernel" where
  "set_status t st s = s\<lparr>threads := (threads s)(t := (threads s t)\<lparr>status := st\<rparr>)\<rparr>"

definition set_holder :: "lid \<Rightarrow> tid option \<Rightarrow> kernel \<Rightarrow> kernel" where
  "set_holder l h s = s\<lparr>holder := (holder s)(l := h)\<rparr>"

definition set_sema_value :: "sema_ptr \<Rightarrow> 32 word \<Rightarrow> kernel \<Rightarrow> kernel" where
  "set_sema_value p v s = s\<lparr>semas := (semas s)(p := (semas s p)\<lparr>sema_value := v\<rparr>)\<rparr>"

definition set_waiters :: "sema_ptr \<Rightarrow> tid list \<Rightarrow> kernel \<Rightarrow> kernel" where
  "set_waiters p ws s = s\<lparr>semas := (semas s)(p := (semas s p)\<lparr>waiters := ws\<rparr>)\<rparr>"

definition set_cond_waiters :: "cid \<Rightarrow> wid list \<Rightarrow> kernel \<Rightarrow> kernel" where
  "set_cond_waiters c ws s = s\<lparr>cond_waiters := (cond_waiters s)(c := ws)\<rparr>"

section \<open>The collaborators outside synch.c\<close>

subsection \<open>The ordered-list container\<close>

text \<open>
  Modelled from the spec: the list container (lib/kernel/list.c) is not among the
  sources. The spec gives its interface: insert-maintaining-order-by-comparator,
  stable-sort-by-comparator, pop-front. \<open>before a b\<close> is the comparator: \<open>a\<close> goes before
  \<open>b\<close>. Insertion walks from the front and stops before the first element that
  the new one goes before, so among equals the first inserted stays first.
\<close>

fun list_insert_ordered :: "('a \<Rightarrow> 'a \<Rightarrow> bool) \<Rightarrow> 'a \<Rightarrow> 'a list \<Rightarrow> 'a list" where
  "list_insert_ordered before x [] = [x]"
| "list_insert_ordered before x (y # ys) =
     (if before x y then x # y # ys else y # list_insert_ordered before x ys)"

definition list_sort :: "('a \<Rightarrow> 'a \<Rightarrow> bool) \<Rightarrow> 'a list \<Rightarrow> 'a list" where
  "list_sort before xs = foldl (\<lambda>acc x. list_insert_ordered before x acc) [] xs"

text \<open>
  Modelled from the spec: the same two operations of the absent list container, for
  a comparator whose result may be undefined (\<open>None\<close>). The operation has a
  defined result only when every comparison it makes has one.
\<close>

fun list_insert_ordered_u ::
  "('a \<Rightarrow> 'a \<Rightarrow> bool option) \<Rightarrow> 'a \<Rightarrow> 'a list \<Rightarrow> 'a list option" where
  "list_insert_ordered_u before x [] = Some [x]"
| "list_insert_ordered_u before x (y # ys) =
     (case before x y of
        None \<Rightarrow> None
      | Some True \<Rightarrow> Some (x # y # ys)
      | Some False \<Rightarrow> map_option ((#) y) (list_insert_ordered_u before x ys))"

fun list_sort_acc_u ::
  "('a \<Rightarrow> 'a \<Rightarrow> bool option) \<Rightarrow> 'a list \<Rightarrow> 'a list \<Rightarrow> 'a list option" where
  "list_sort_acc_u before acc [] = Some acc"
| "list_sort_acc_u before acc (x # xs) =
     (case list_insert_ordered_u before x acc of
        None \<Rightarrow> None
      | Some acc' \<Rightarrow> list_sort_acc_u before acc' xs)"

definition list_sort_u :: "('a \<Rightarrow> 'a \<Rightarrow> bool option) \<Rightarrow> 'a list \<Rightarrow> 'a list option" where
  "list_sort_u before xs = list_sort_acc_u before [] xs"

subsection \<open>The scheduler and the interrupt controller\<close>

text \<open>
  Modelled from the spec: \<^verbatim>\<open>cmp_priority\<close> (threads/thread.c) is not among the
  sources. The spec orders wait queues by each thread's current effective priority,
  descending: a thread goes before another when its priority is higher.
\<close>

definition cmp_priority :: "kernel \<Rightarrow> tid \<Rightarrow> tid \<Rightarrow> bool" where
  "cmp_priority s a b = (priority (threads s a) > priority (threads s b))"

text \<open>
  Modelled from the spec: \<^verbatim>\<open>thread_unblock\<close> (threads/thread.c) is not among
  the sources; the spec's interface is "mark a specific thread runnable".
\<close>

definition thread_unblock :: "tid \<Rightarrow> kernel \<Rightarrow> kernel" where
  "thread_unblock t s = (set_status t THREAD_READY s)\<lparr>sched_calls := sched_calls s @ [Unblock t]\<rparr>"

text \<open>
  Modelled from the spec: \<^verbatim>\<open>thread_preempt\<close> (threads/thread.c) is not among
  the sources; the spec's interface is "request preemption if a higher-priority
  thread is now runnable". The request is recorded; acting on it is the
  scheduler's business.
\<close>

definition thread_preempt :: "kernel \<Rightarrow> kernel" where
  "thread_preempt s = s\<lparr>sched_calls := sched_calls s @ [Preempt]\<rparr>"

text \<open>
  Modelled from the spec: \<^verbatim>\<open>thread_block\<close> (threads/thread.c) is not among the
  sources; the spec's interface is "suspend the current thread until it is
  explicitly woken". What the rest of the system does while the caller is
  suspended is a parameter: one state transformer for each suspension, in order.
  The caller resumes, as the running thread again, only if it has been marked
  runnable meanwhile; with no transformer left, or when it has not been woken, it
  never resumes.
\<close>

type_synonym world = "(kernel \<Rightarrow> kernel) list"

definition thread_block :: "world \<Rightarrow> kernel \<Rightarrow> (world \<times> kernel) option" where
  "thread_block w s =
     (case w of
        [] \<Rightarrow> None
      | f # w' \<Rightarrow>
          (let t = cur s;
               s1 = f ((set_status t THREAD_BLOCKED s)\<lparr>sched_calls := sched_calls s @ [Block t]\<rparr>)
           in if status (threads s1 t) = THREAD_READY
              then Some (w', (set_status t THREAD_RUNNING s1)\<lparr>cur := t\<rparr>)
              else None))"

text \<open>
  Modelled from the spec: the interrupt controller (threads/interrupt.c) is not
  among the sources; the spec's interface is "disable interrupts and obtain the
  previous level" and "restore a previously saved level".
\<close>

definition intr_disable :: "kernel \<Rightarrow> intr_level \<times> kernel" where
  "intr_disable s = (intr s, s\<lparr>intr := INTR_OFF\<rparr>)"

definition intr_set_level :: "intr_level \<Rightarrow> kernel \<Rightarrow> kernel" where
  "intr_set_level lv s = s\<lparr>intr := lv\<rparr>"

section \<open>synch.c\<close>

subsection \<open>Comparators and the donation engine\<close>

definition cmp_priority_donation :: "kernel \<Rightarrow> tid \<Rightarrow> tid \<Rightarrow> bool" where
  "cmp_priority_donation s a b = (priority (threads s a) > priority (threads s b))"

text \<open>
  \<^verbatim>\<open>cmp_priority_by_sema\<close>: inside the \<^verbatim>\<open>if\<close> the comparison of the two front
  waiters is computed and dropped, and control reaches the end of a non-void
  function; only the \<^verbatim>\<open>else\<close> branch returns.
\<close>

definition cmp_priority_by_sema :: "kernel \<Rightarrow> wid \<Rightarrow> wid \<Rightarrow> bool option" where
  "cmp_priority_by_sema s a b =
     (if waiters (semas s (WaiterSema a)) \<noteq> [] \<and> waiters (semas s (WaiterSema b)) \<noteq> []
      then (let computed = cmp_priority s (hd (waiters (semas s (WaiterSema a))))
                                          (hd (waiters (semas s (WaiterSema b))))
            in None)
      else Some False)"

definition is_waiter :: "kernel \<Rightarrow> tid \<Rightarrow> lid \<Rightarrow> bool" where
  "is_waiter s e l = (wait_on_lock (threads s e) = Some l)"

partial_function (option) priority_donation :: "tid option \<Rightarrow> kernel \<Rightarrow> kernel result option" where
  "priority_donation tp s =
     (case tp of
        None \<Rightarrow> Some (Inl Assertion_failed)
      | Some t \<Rightarrow>
          (let s1 =
                 (if donations (threads s t) = []
                  then set_priority t (origin_priority (threads s t)) s
                  else (let highest = hd (donations (threads s t))
                        in if origin_priority (threads s t) < priority (threads s highest)
                           then set_priority t (priority (threads s highest)) s
                           else set_priority t (origin_priority (threads s t)) s))
           in (case wait_on_lock (threads s1 t) of
                 None \<Rightarrow> Some (Inr s1)
               | Some l \<Rightarrow> priority_donation (holder s1 l) s1)))"

subsection \<open>Semaphores\<close>

text \<open>
  The arguments \<^verbatim>\<open>sema\<close>, \<^verbatim>\<open>lock\<close> and \<^verbatim>\<open>cond\<close> are identifiers here and
  cannot be \<^verbatim>\<open>NULL\<close>, so the \<^verbatim>\<open>ASSERT (... != NULL)\<close> lines on them always pass.
\<close>

definition sema_init :: "sema_ptr \<Rightarrow> 32 word \<Rightarrow> kernel \<Rightarrow> kernel" where
  "sema_init p v s = set_waiters p [] (set_sema_value p v s)"

text \<open>The \<^verbatim>\<open>while\<close> loop of \<^verbatim>\<open>sema_down\<close>; each turn ends in \<^verbatim>\<open>thread_block\<close>.\<close>

function sema_down_loop :: "sema_ptr \<Rightarrow> world \<Rightarrow> kernel \<Rightarrow> (world \<times> kernel) option" where
  "sema_down_loop p w s =
     (if sema_value (semas s p) = 0
      then (case thread_block w
                   (set_waiters p
                      (list_insert_ordered (cmp_priority s) (cur s) (waiters (semas s p))) s) of
              None \<Rightarrow> None
            | Some (w', s') \<Rightarrow> sema_down_loop p w' s')
      else Some (w, s))"
  by pat_completeness auto
termination
  by (relation "measure (\<lambda>(p, w, s). length w)")
     (auto simp: thread_block_def Let_def split: list.splits if_splits)

declare sema_down_loop.simps [simp del]

definition sema_down :: "sema_ptr \<Rightarrow> world \<Rightarrow> kernel \<Rightarrow> (world \<times> kernel) result option" where
  "sema_down p w s =
     (if in_intr_context s then Some (Inl Assertion_failed)
      else (let (old_level, s1) = intr_disable s
            in (case sema_down_loop p w s1 of
                  None \<Rightarrow> None
                | Some (w', s2) \<Rightarrow>
                    Some (Inr (w', intr_set_level old_level
                                     (set_sema_value p (sema_value (semas s2 p) - 1) s2))))))"

definition sema_try_down :: "sema_ptr \<Rightarrow> kernel \<Rightarrow> bool \<times> kernel" where
  "sema_try_down p s =
     (let (old_level, s1) = intr_disable s;
          (success, s2) =
             (if sema_value (semas s1 p) > 0
              then (True, set_sema_value p (sema_value (semas s1 p) - 1) s1)
              else (False, s1))
      in (success, intr_set_level old_level s2))"

definition sema_up :: "sema_ptr \<Rightarrow> kernel \<Rightarrow> kernel" where
  "sema_up p s =
     (let (old_level, s1) = intr_disable s;
          s2 = (if waiters (semas s1 p) \<noteq> []
                then (let s' = set_waiters p (list_sort (cmp_priority s1) (waiters (semas s1 p))) s1;
                          front = hd (waiters (semas s' p));
                          s'' = set_waiters p (tl (waiters (semas s' p))) s'
                      in thread_unblock front s'')
                else s1);
          s3 = set_sema_value p (sema_value (semas s2 p) + 1) s2;
          s4 = thread_preempt s3
      in intr_set_level old_level s4)"

subsection \<open>Locks\<close>

definition and_then :: "'a result option \<Rightarrow> ('a \<Rightarrow> 'b result option) \<Rightarrow> 'b result option" where
  "and_then m f = (case m of None \<Rightarrow> None | Some (Inl e) \<Rightarrow> Some (Inl e) | Some (Inr x) \<Rightarrow> f x)"

definition lock_init :: "lid \<Rightarrow> kernel \<Rightarrow> kernel" where
  "lock_init l s = sema_init (LockSema l) 1 (set_holder l None s)"

definition lock_held_by_current_thread :: "lid \<Rightarrow> kernel \<Rightarrow> bool" where
  "lock_held_by_current_thread l s = (holder s l = Some (cur s))"

definition lock_try_acquire :: "lid \<Rightarrow> kernel \<Rightarrow> (bool \<times> kernel) result" where
  "lock_try_acquire l s =
     (if lock_held_by_current_thread l s then Inl Assertion_failed
      else (let (success, s1) = sema_try_down (LockSema l) s;
                s2 = (if success then set_holder l (Some (cur s1)) s1 else s1)
            in Inr (success, s2)))"

definition lock_acquire :: "lid \<Rightarrow> world \<Rightarrow> kernel \<Rightarrow> (world \<times> kernel) result option" where
  "lock_acquire l w s =
     (if in_intr_context s then Some (Inl Assertion_failed)
      else if lock_held_by_current_thread l s then Some (Inl Assertion_failed)
      else (case lock_try_acquire l s of
              Inl e \<Rightarrow> Some (Inl e)
            | Inr (success, s1) \<Rightarrow>
                and_then
                  (if \<not> success
                   then (let s2 = set_wait_on_lock (cur s1) (Some l) s1
                         in and_then
                              (if \<not> thread_mlfqs s2
                               then (case holder s2 l of
                                       None \<Rightarrow> Some (Inl Null_dereference)
                                     | Some h \<Rightarrow>
                                         (let s3 = set_donations h
                                                     (list_insert_ordered (cmp_priority_donation s2)
                                                        (cur s2) (donations (threads s2 h))) s2
                                          in priority_donation (holder s3 l) s3))
                               else Some (Inr s2))
                              (\<lambda>s4. and_then (sema_down (LockSema l) w s4)
                                       (\<lambda>(w', s5). Some (Inr (w', set_holder l (Some (cur s5)) s5)))))
                   else Some (Inr (w, s1)))
                  (\<lambda>(w', s6).
                     (case holder s6 l of
                        None \<Rightarrow> Some (Inl Null_dereference)
                      | Some h \<Rightarrow> Some (Inr (w', set_wait_on_lock h None s6))))))"

text \<open>The removal loop of \<^verbatim>\<open>lock_release\<close>, from \<^verbatim>\<open>list_front\<close> to \<^verbatim>\<open>list_end\<close>.\<close>

fun remove_waiters :: "kernel \<Rightarrow> lid \<Rightarrow> tid list \<Rightarrow> tid list" where
  "remove_waiters s l [] = []"
| "remove_waiters s l (e # es) =
     (if is_waiter s e l then remove_waiters s l es else e # remove_waiters s l es)"

definition lock_release :: "lid \<Rightarrow> kernel \<Rightarrow> kernel result option" where
  "lock_release l s =
     (if \<not> lock_held_by_current_thread l s then Some (Inl Assertion_failed)
      else and_then
             (if \<not> thread_mlfqs s
              then (case holder s l of
                      None \<Rightarrow> Some (Inl Null_dereference)
                    | Some h \<Rightarrow>
                        (let s1 = set_donations h (remove_waiters s l (donations (threads s h))) s;
                             s2 = set_donations h
                                    (list_sort (cmp_priority_donation s1) (donations (threads s1 h))) s1
                         in priority_donation (holder s2 l) s2))
              else Some (Inr s))
             (\<lambda>s3. Some (Inr (sema_up (LockSema l) (set_holder l None s3)))))"

subsection \<open>Condition variables\<close>

definition cond_init :: "cid \<Rightarrow> kernel \<Rightarrow> kernel" where
  "cond_init c s = set_cond_waiters c [] s"

text \<open>
  \<^verbatim>\<open>cond_wait\<close> up to the insertion of its waiter; \<open>wd\<close> names the local
  \<^verbatim>\<open>struct semaphore_elem waiter\<close>.
\<close>

definition cond_wait_enqueue :: "cid \<Rightarrow> wid \<Rightarrow> kernel \<Rightarrow> kernel result" where
  "cond_wait_enqueue c wd s =
     (let s1 = sema_init (WaiterSema wd) 0 s
      in (case list_insert_ordered_u (cmp_priority_by_sema s1) wd (cond_waiters s1 c) of
            None \<Rightarrow> Inl Undefined_value
          | Some ws \<Rightarrow> Inr (set_cond_waiters c ws s1)))"

definition cond_wait :: "cid \<Rightarrow> lid \<Rightarrow> wid \<Rightarrow> world \<Rightarrow> kernel \<Rightarrow> (world \<times> kernel) result option" where
  "cond_wait c l wd w s =
     (if in_intr_context s then Some (Inl Assertion_failed)
      else if \<not> lock_held_by_current_thread l s then Some (Inl Assertion_failed)
      else and_then (Some (cond_wait_enqueue c wd s))
             (\<lambda>s2. and_then (lock_release l s2)
                (\<lambda>s3. and_then (sema_down (WaiterSema wd) w s3)
                   (\<lambda>(w', s4). lock_acquire l w' s4))))"

definition cond_signal :: "cid \<Rightarrow> lid \<Rightarrow> kernel \<Rightarrow> kernel result" where
  "cond_signal c l s =
     (if in_intr_context s then Inl Assertion_failed
      else if \<not> lock_held_by_current_thread l s then Inl Assertion_failed
      else (case list_sort_u (cmp_priority_by_sema s) (cond_waiters s c) of
              None \<Rightarrow> Inl Undefined_value
            | Some ws \<Rightarrow>
                (let s1 = set_cond_waiters c ws s
                 in if cond_waiters s1 c \<noteq> []
                    then (let front = hd (cond_waiters s1 c);
                              s2 = set_cond_waiters c (tl (cond_waiters s1 c)) s1
                          in Inr (sema_up (WaiterSema front) s2))
                    else Inr s1)))"

section \<open>Notions used to state the properties\<close>

text \<open>
  The donation step in the spec's words: the effective priority of \<open>t\<close> is its
  \<open>origin_priority\<close> when \<open>donations\<close> is empty, and otherwise the maximum of
  \<open>origin_priority\<close> and the priority of the head of \<open>donations\<close>.
\<close>

definition spec_effective_priority :: "kernel \<Rightarrow> tid \<Rightarrow> int" where
  "spec_effective_priority s t =
     (if donations (threads s t) = [] then origin_priority (threads s t)
      else max (origin_priority (threads s t))
               (priority (threads s (hd (donations (threads s t))))))"

definition spec_donate :: "kernel \<Rightarrow> tid \<Rightarrow> kernel" where
  "spec_donate s t = set_priority t (spec_effective_priority s t) s"

text \<open>
  The blocking chain that starts at \<open>t\<close>: \<open>t\<close>, the holder of the lock \<open>t\<close> waits
  on, the holder of the lock that one waits on, and so on, up to a thread that
  waits on no lock. A list is finite, and a chain that ends is acyclic.
\<close>

fun blocking_chain :: "kernel \<Rightarrow> tid \<Rightarrow> tid list \<Rightarrow> bool" where
  "blocking_chain s t [] = False"
| "blocking_chain s t (u # us) =
     (u = t \<and>
      (case wait_on_lock (threads s t) of
         None \<Rightarrow> us = []
       | Some l \<Rightarrow> (case holder s l of None \<Rightarrow> False | Some h \<Rightarrow> blocking_chain s h us)))"

text \<open>A list of threads in descending order of current priority.\<close>

definition by_priority :: "kernel \<Rightarrow> tid list \<Rightarrow> bool" where
  "by_priority s ts =
     sorted_wrt (\<lambda>a b. priority (threads s a) \<ge> priority (threads s b)) ts"

text \<open>
  The data-model invariant of \<open>donations\<close>: every donor of \<open>t\<close> is blocked on a
  lock that \<open>t\<close> holds.
\<close>

definition donors_wait_on :: "kernel \<Rightarrow> tid \<Rightarrow> bool" where
  "donors_wait_on s t =
     list_all (\<lambda>d. case wait_on_lock (threads s d) of
                      None \<Rightarrow> False
                    | Some l \<Rightarrow> holder s l = Some t)
              (donations (threads s t))"

text \<open>
  One turn of the loop of \<^verbatim>\<open>sema_down\<close> as an atomic piece of the caller's
  execution: either the caller is queued (and will suspend), or the loop is left and
  the count is decremented.
\<close>

definition sema_down_turn :: "sema_ptr \<Rightarrow> kernel \<Rightarrow> kernel + kernel" where
  "sema_down_turn p s =
     (if sema_value (semas s p) = 0
      then Inl (set_waiters p
                  (list_insert_ordered (cmp_priority s) (cur s) (waiters (semas s p))) s)
      else Inr (set_sema_value p (sema_value (semas s p) - 1) s))"

text \<open>
  Interleavings on one semaphore: a sequence of atomic pieces, each run by some
  thread, with the completed ups and downs counted.
\<close>

datatype sema_event = Ev_up tid | Ev_try_down tid | Ev_down_turn tid

record tally =
  state :: kernel
  completed_ups :: nat
  completed_downs :: nat

fun sema_event_step :: "sema_ptr \<Rightarrow> tally \<Rightarrow> sema_event \<Rightarrow> tally" where
  "sema_event_step p c (Ev_up t) =
     c\<lparr>state := sema_up p ((state c)\<lparr>cur := t\<rparr>), completed_ups := completed_ups c + 1\<rparr>"
| "sema_event_step p c (Ev_try_down t) =
     (case sema_try_down p ((state c)\<lparr>cur := t\<rparr>) of
        (True, s') \<Rightarrow> c\<lparr>state := s', completed_downs := completed_downs c + 1\<rparr>
      | (False, s') \<Rightarrow> c\<lparr>state := s'\<rparr>)"
| "sema_event_step p c (Ev_down_turn t) =
     (case sema_down_turn p ((state c)\<lparr>cur := t\<rparr>) of
        Inl s' \<Rightarrow> c\<lparr>state := s'\<rparr>
      | Inr s' \<Rightarrow> c\<lparr>state := s', completed_downs := completed_downs c + 1\<rparr>)"

definition sema_run :: "sema_ptr \<Rightarrow> 32 word \<Rightarrow> kernel \<Rightarrow> sema_event list \<Rightarrow> tally" where
  "sema_run p v s evs =
     foldl (sema_event_step p)
       \<lparr>state = sema_init p v s, completed_ups = 0, completed_downs = 0\<rparr> evs"

text \<open>The order in which \<^verbatim>\<open>sema_up\<close> serves the waiters of a semaphore.\<close>

definition wake_order :: "kernel \<Rightarrow> sema_ptr \<Rightarrow> tid list" where
  "wake_order s p = list_sort (cmp_priority s) (waiters (semas s p))"

text \<open>
  What \<^verbatim>\<open>lock_release\<close> leaves in the donation list of the releasing thread: the
  donors that do not wait on the released lock, sorted by current priority.
\<close>

definition kept_donations :: "kernel \<Rightarrow> lid \<Rightarrow> tid list" where
  "kept_donations s l =
     list_sort (cmp_priority_donation s)
       (filter (\<lambda>d. wait_on_lock (threads s d) \<noteq> Some l) (donations (threads s (cur s))))"

text \<open>
  The donation step on the slow path of \<^verbatim>\<open>lock_acquire\<close> (the body of
  \<^verbatim>\<open>if (!thread_mlfqs)\<close>), named so that the slow path can be stated in one line.
\<close>

definition donate_to_holder :: "lid \<Rightarrow> kernel \<Rightarrow> kernel result option" where
  "donate_to_holder l s2 =
     (if \<not> thread_mlfqs s2
      then (case holder s2 l of
              None \<Rightarrow> Some (Inl Null_dereference)
            | Some h \<Rightarrow>
                (let s3 = set_donations h
                            (list_insert_ordered (cmp_priority_donation s2)
                               (cur s2) (donations (threads s2 h))) s2
                 in priority_donation (holder s3 l) s3))
      else Some (Inr s2))"

text \<open>
  What another thread does while the caller is suspended: thread \<open>t\<close> ups the
  semaphore; thread \<open>t\<close> ups it and thread \<open>u\<close> takes the unit at once; thread
  \<open>t\<close> releases the lock.
\<close>

definition up_by :: "tid \<Rightarrow> sema_ptr \<Rightarrow> kernel \<Rightarrow> kernel" where
  "up_by t p s = sema_up p (s\<lparr>cur := t\<rparr>)"

definition up_then_taken :: "tid \<Rightarrow> tid \<Rightarrow> sema_ptr \<Rightarrow> kernel \<Rightarrow> kernel" where
  "up_then_taken t u p s = snd (sema_try_down p ((up_by t p s)\<lparr>cur := u\<rparr>))"

definition release_by :: "tid \<Rightarrow> lid \<Rightarrow> kernel \<Rightarrow> kernel" where
  "release_by t l s = (case lock_release l (s\<lparr>cur := t\<rparr>) of Some (Inr s') \<Rightarrow> s' | _ \<Rightarrow> s)"

section \<open>Example states\<close>

definition idle_thread :: thread where
  "idle_thread = \<lparr>priority = 0, origin_priority = 0, donations = [], wait_on_lock = None,
                   status = THREAD_READY\<rparr>"

definition new_thread :: "int \<Rightarrow> thread" where
  "new_thread p = \<lparr>priority = p, origin_priority = p, donations = [], wait_on_lock = None,
                    status = THREAD_READY\<rparr>"

definition blocked_thread :: "int \<Rightarrow> int \<Rightarrow> thread" where
  "blocked_thread p origin = (new_thread origin)\<lparr>priority := p, status := THREAD_BLOCKED\<rparr>"

text \<open>Nothing initialised: thread 0 runs, every count is 0, no lock is held.\<close>

definition boot :: kernel where
  "boot = \<lparr>threads = (\<lambda>_. idle_thread), semas = (\<lambda>_. \<lparr>sema_value = 0, waiters = []\<rparr>),
           holder = (\<lambda>_. None), cond_waiters = (\<lambda>_. []), cur = 0, thread_mlfqs = False,
           in_intr_context = False, intr = INTR_ON, sched_calls = []\<rparr>"

text \<open>A semaphore and a lock, each with one unit available.\<close>

definition one_unit :: kernel where
  "one_unit = lock_init 0 (sema_init (SemaAt 0) 1 boot)"

text \<open>
  Three threads queued on a semaphore in the order 2, 3, 1 (priorities 30, 20, 10);
  thread 1 has since been boosted to 40 by a donation.
\<close>

definition three_waiters :: kernel where
  "three_waiters =
     boot\<lparr>threads := (threads boot)(1 := blocked_thread 40 10, 2 := blocked_thread 30 30,
                                      3 := blocked_thread 20 20),
          semas := (semas boot)(SemaAt 0 := \<lparr>sema_value = 0, waiters = [2, 3, 1]\<rparr>)\<rparr>"

text \<open>
  A condition variable with two waiters, in arrival order: thread 1 (priority 10)
  blocked on waiter 1, thread 2 (priority 50) blocked on waiter 2. Thread 0 holds
  lock 0.
\<close>

definition two_cond_waiters :: kernel where
  "two_cond_waiters =
     boot\<lparr>threads := (threads boot)(1 := blocked_thread 10 10, 2 := blocked_thread 50 50),
          semas := (semas boot)(WaiterSema 1 := \<lparr>sema_value = 0, waiters = [1]\<rparr>,
                                WaiterSema 2 := \<lparr>sema_value = 0, waiters = [2]\<rparr>),
          cond_waiters := (cond_waiters boot)(0 := [1, 2]),
          holder := (holder boot)(0 := Some 0)\<rparr>"

text \<open>
  The spec's transitive chain: thread 1 (priority 50) has just queued on lock 1 held
  by thread 2 (base priority 20), which waits on lock 2 held by thread 3 (base
  priority 10, already raised to 20 by thread 2).
\<close>

definition donation_chain :: kernel where
  "donation_chain =
     boot\<lparr>threads := (threads boot)
            (1 := (new_thread 50)\<lparr>wait_on_lock := Some 1, status := THREAD_RUNNING\<rparr>,
             2 := (blocked_thread 20 20)\<lparr>donations := [1], wait_on_lock := Some 2\<rparr>,
             3 := (new_thread 10)\<lparr>priority := 20, donations := [2]\<rparr>),
          holder := (holder boot)(1 := Some 2, 2 := Some 3),
          cur := 1\<rparr>"

text \<open>
  The spec's donation scenario: thread 1 (base priority 10) holds lock 0 and runs;
  thread 2 (priority 30) is blocked on the lock and has raised thread 1 to 30.
\<close>

definition donor_blocked :: kernel where
  "donor_blocked =
     boot\<lparr>threads := (threads boot)
            (1 := (new_thread 10)\<lparr>priority := 30, donations := [2], status := THREAD_RUNNING\<rparr>,
             2 := (blocked_thread 30 30)\<lparr>wait_on_lock := Some 0\<rparr>),
          semas := (semas boot)(LockSema 0 := \<lparr>sema_value = 0, waiters = [2]\<rparr>),
          holder := (holder boot)(0 := Some 1),
          cur := 1\<rparr>"

text \<open>
  The spec's end-to-end scenario just before the second acquire: thread 1
  (priority 20) holds lock 0; thread 2 (priority 40) runs and is about to acquire it.
\<close>

definition contended :: kernel where
  "contended =
     boot\<lparr>threads := (threads boot)(1 := (new_thread 20)\<lparr>status := THREAD_READY\<rparr>,
                                      2 := (new_thread 40)\<lparr>status := THREAD_RUNNING\<rparr>),
          holder := (holder boot)(0 := Some 1),
          cur := 2\<rparr>"

text \<open>Thread 1 (priority 30) runs and is about to down a semaphore whose count is 0.\<close>

definition caller_at_zero :: kernel where
  "caller_at_zero =
     boot\<lparr>threads := (threads boot)(1 := (new_thread 30)\<lparr>status := THREAD_RUNNING\<rparr>),
          cur := 1\<rparr>"

text \<open>
  Lock 0 is free; the running thread 0 still carries a \<open>wait_on_lock\<close> that some
  earlier code left behind.
\<close>

definition stale_wait :: kernel where
  "stale_wait =
     one_unit\<lparr>threads := (threads one_unit)
                 (0 := (new_thread 5)\<lparr>wait_on_lock := Some 7, status := THREAD_RUNNING\<rparr>)\<rparr>"

text \<open>
  As \<open>two_cond_waiters\<close>, with the running thread 0 at priority 60, about to wait
  on the condition variable.
\<close>

definition urgent_waiter :: kernel where
  "urgent_waiter =
     two_cond_waiters\<lparr>threads := (threads two_cond_waiters)
                         (0 := (new_thread 60)\<lparr>status := THREAD_RUNNING\<rparr>)\<rparr>"

text \<open>
  A nested donation with two donors on the outer lock: thread 3 (base priority 10)
  holds lock 2, on which thread 4 (priority 30) and thread 2 (priority 20) are
  blocked, so its donation list is 4, 2 and its priority 30. Thread 2 holds lock 1.
  Thread 1 (priority 50) runs, has found lock 1 taken and has just been inserted
  into the donation list of thread 2.
\<close>

definition nested_donation :: kernel where
  "nested_donation =
     boot\<lparr>threads := (threads boot)
            (1 := (new_thread 50)\<lparr>wait_on_lock := Some 1, status := THREAD_RUNNING\<rparr>,
             2 := (blocked_thread 20 20)\<lparr>donations := [1], wait_on_lock := Some 2\<rparr>,
             3 := (new_thread 10)\<lparr>priority := 30, donations := [4, 2]\<rparr>,
             4 := (blocked_thread 30 30)\<lparr>wait_on_lock := Some 2\<rparr>),
          holder := (holder boot)(1 := Some 2, 2 := Some 3),
          cur := 1\<rparr>"


section \<open>Auxiliary facts\<close>

subsection \<open>The list container\<close>

lemma mset_list_insert_ordered [simp]:
  "mset (list_insert_ordered before x xs) = add_mset x (mset xs)"
  by (induction xs) auto

lemma set_list_insert_ordered [simp]:
  "set (list_insert_ordered before x xs) = insert x (set xs)"
  by (induction xs) auto

lemma list_insert_ordered_not_Nil [simp]: "list_insert_ordered before x xs \<noteq> []"
  by (cases xs) auto

lemma mset_foldl_insert:
  "mset (foldl (\<lambda>acc x. list_insert_ordered before x acc) acc xs) = mset acc + mset xs"
  by (induction xs arbitrary: acc) auto

lemma mset_list_sort [simp]: "mset (list_sort before xs) = mset xs"
  by (simp add: list_sort_def mset_foldl_insert)

lemma set_list_sort [simp]: "set (list_sort before xs) = set xs"
  using mset_list_sort [of before xs] by (metis set_mset_mset)

lemma length_list_sort [simp]: "length (list_sort before xs) = length xs"
  using mset_list_sort [of before xs] by (metis size_mset)

lemma list_sort_Nil_iff [simp]: "list_sort before xs = [] \<longleftrightarrow> xs = []"
  using length_list_sort [of before xs] by (metis length_0_conv)

lemma sorted_list_insert_ordered:
  "sorted_wrt (\<lambda>a b. (key b :: int) \<le> key a) xs \<Longrightarrow>
   sorted_wrt (\<lambda>a b. key b \<le> key a) (list_insert_ordered (\<lambda>a b. key a > key b) x xs)"
  by (induction xs) auto

lemma sorted_foldl_insert:
  "sorted_wrt (\<lambda>a b. (key b :: int) \<le> key a) acc \<Longrightarrow>
   sorted_wrt (\<lambda>a b. key b \<le> key a)
     (foldl (\<lambda>acc x. list_insert_ordered (\<lambda>a b. key a > key b) x acc) acc xs)"
  by (induction xs arbitrary: acc) (auto simp: sorted_list_insert_ordered)

lemma sorted_list_sort:
  "sorted_wrt (\<lambda>a b. (key b :: int) \<le> key a) (list_sort (\<lambda>a b. key a > key b) xs)"
  by (simp add: list_sort_def sorted_foldl_insert)

lemma hd_sorted_desc_Max:
  "sorted_wrt (\<lambda>a b. (key b :: int) \<le> key a) xs \<Longrightarrow> xs \<noteq> [] \<Longrightarrow>
   key (hd xs) = Max (key ` set xs)"
  by (cases xs) (auto intro!: Max_eqI [symmetric])

lemma by_priority_list_sort_cmp_priority: "by_priority s (list_sort (cmp_priority s) xs)"
  unfolding by_priority_def
  using sorted_list_sort [of "\<lambda>t. priority (threads s t)" xs]
  by (simp add: cmp_priority_def [abs_def])

lemma by_priority_list_sort_cmp_priority_donation:
  "by_priority s (list_sort (cmp_priority_donation s) xs)"
  unfolding by_priority_def
  using sorted_list_sort [of "\<lambda>t. priority (threads s t)" xs]
  by (simp add: cmp_priority_donation_def [abs_def])

lemma by_priority_hd_Max:
  "by_priority s ts \<Longrightarrow> ts \<noteq> [] \<Longrightarrow>
   priority (threads s (hd ts)) = Max ((\<lambda>t. priority (threads s t)) ` set ts)"
  unfolding by_priority_def by (rule hd_sorted_desc_Max)

lemma remove_waiters_filter:
  "remove_waiters s l es = filter (\<lambda>e. wait_on_lock (threads s e) \<noteq> Some l) es"
  by (induction es) (auto simp: is_waiter_def)

lemma list_insert_ordered_sorted_id:
  "sorted_wrt (\<lambda>a b. (key b :: int) \<le> key a) (xs @ [x]) \<Longrightarrow>
   list_insert_ordered (\<lambda>a b. key a > key b) x xs = xs @ [x]"
  by (induction xs) (auto simp: sorted_wrt_append)

subsection \<open>Machine arithmetic and interrupt levels\<close>

lemma intr_restore [simp]: "intr_set_level (intr s) (s\<lparr>intr := INTR_OFF\<rparr>) = s"
  by (simp add: intr_set_level_def)

lemma unat_dec_suc: "(v :: 32 word) \<noteq> 0 \<Longrightarrow> Suc (unat (v - 1)) = unat v"
  using unat_minus_one [of v] unat_gt_0 [of v] by simp

lemma sema_try_down_zero:
  "sema_value (semas s p) = 0 \<Longrightarrow> sema_try_down p s = (False, s)"
  by (simp add: sema_try_down_def intr_disable_def)

lemma sema_try_down_pos:
  "sema_value (semas s p) \<noteq> 0 \<Longrightarrow>
     sema_try_down p s = (True, set_sema_value p (sema_value (semas s p) - 1) s)"
  by (simp add: sema_try_down_def intr_disable_def word_greater_zero_iff
      set_sema_value_def intr_set_level_def)

subsection \<open>\<^verbatim>\<open>sema_up\<close>\<close>

lemma cmp_priority_intr [simp]: "cmp_priority (s\<lparr>intr := lv\<rparr>) = cmp_priority s"
  by (intro ext) (simp add: cmp_priority_def)

lemma sema_up_empty:
  "waiters (semas s p) = [] \<Longrightarrow>
   sema_up p s =
     s\<lparr>semas := (semas s)(p := (semas s p)\<lparr>sema_value := sema_value (semas s p) + 1\<rparr>),
       sched_calls := sched_calls s @ [Preempt]\<rparr>"
  by (simp add: sema_up_def intr_disable_def intr_set_level_def thread_preempt_def
      set_sema_value_def)

lemma sema_up_nonempty:
  "waiters (semas s p) \<noteq> [] \<Longrightarrow>
   sema_up p s =
     s\<lparr>threads := (threads s)(hd (wake_order s p) :=
                      (threads s (hd (wake_order s p)))\<lparr>status := THREAD_READY\<rparr>),
       semas := (semas s)(p := (semas s p)\<lparr>waiters := tl (wake_order s p),
                                sema_value := sema_value (semas s p) + 1\<rparr>),
       sched_calls := sched_calls s @ [Unblock (hd (wake_order s p)), Preempt]\<rparr>"
  by (simp add: sema_up_def intr_disable_def intr_set_level_def thread_preempt_def
      set_sema_value_def set_waiters_def thread_unblock_def set_status_def wake_order_def Let_def)

lemma sema_up_value: "sema_value (semas (sema_up p s) p) = sema_value (semas s p) + 1"
  by (cases "waiters (semas s p) = []") (simp_all add: sema_up_empty sema_up_nonempty)

lemma sema_up_last_call: "last (sched_calls (sema_up p s)) = Preempt"
  by (cases "waiters (semas s p) = []") (simp_all add: sema_up_empty sema_up_nonempty)

lemma sema_up_priority [simp]:
  "priority (threads (sema_up p s) u) = priority (threads s u)"
  by (cases "waiters (semas s p) = []") (simp_all add: sema_up_empty sema_up_nonempty)

lemma cmp_priority_sema_up [simp]: "cmp_priority (sema_up p s) = cmp_priority s"
  by (intro ext) (simp add: cmp_priority_def)

lemma by_priority_sema_up [simp]: "by_priority (sema_up p s) ts = by_priority s ts"
  by (simp add: by_priority_def)

lemma foldl_insert_sorted:
  "sorted_wrt (\<lambda>a b. (key b :: int) \<le> key a) (acc @ xs) \<Longrightarrow>
   foldl (\<lambda>acc x. list_insert_ordered (\<lambda>a b. key a > key b) x acc) acc xs = acc @ xs"
proof (induction xs arbitrary: acc)
  case Nil
  then show ?case by simp
next
  case (Cons x xs)
  have srt: "sorted_wrt (\<lambda>a b. key b \<le> key a) ((acc @ [x]) @ xs)"
    using Cons.prems by simp
  then have "sorted_wrt (\<lambda>a b. key b \<le> key a) (acc @ [x])"
    unfolding sorted_wrt_append [of _ "acc @ [x]" xs] by blast
  then have "list_insert_ordered (\<lambda>a b. key a > key b) x acc = acc @ [x]"
    by (rule list_insert_ordered_sorted_id)
  then show ?case using Cons.IH [OF srt] by simp
qed

lemma list_sort_sorted_id:
  "by_priority s ts \<Longrightarrow> list_sort (cmp_priority s) ts = ts"
  unfolding by_priority_def list_sort_def
  using foldl_insert_sorted [of "\<lambda>t. priority (threads s t)" "[]" ts]
  by (simp add: cmp_priority_def [abs_def])

lemma by_priority_tl: "by_priority s ts \<Longrightarrow> by_priority s (tl ts)"
  by (cases ts) (simp_all add: by_priority_def)

lemma by_priority_drop: "by_priority s ts \<Longrightarrow> by_priority s (drop k ts)"
  unfolding by_priority_def by (rule sorted_wrt_drop)

lemma by_priority_wake_order: "by_priority s (wake_order s p)"
  by (simp add: wake_order_def by_priority_list_sort_cmp_priority)

lemma wake_order_sorted_waiters:
  "by_priority s (waiters (semas s p)) \<Longrightarrow> wake_order s p = waiters (semas s p)"
  by (simp add: wake_order_def list_sort_sorted_id)

lemma sema_up_waiters: "waiters (semas (sema_up p s) p) = tl (wake_order s p)"
  by (cases "waiters (semas s p) = []")
     (simp_all add: sema_up_empty sema_up_nonempty wake_order_def list_sort_def)

lemma sema_up_calls:
  "waiters (semas s p) \<noteq> [] \<Longrightarrow>
   sched_calls (sema_up p s) = sched_calls s @ [Unblock (hd (wake_order s p)), Preempt]"
  by (simp add: sema_up_nonempty)

lemma wake_order_after_up: "wake_order (sema_up p s) p = tl (wake_order s p)"
  using by_priority_tl [OF by_priority_wake_order [of s p]]
  by (simp add: wake_order_def sema_up_waiters list_sort_sorted_id)

lemma wake_order_Nil_iff [simp]: "wake_order s p = [] \<longleftrightarrow> waiters (semas s p) = []"
  by (simp add: wake_order_def)

lemma sema_up_iterated:
  "k \<le> length (waiters (semas s p)) \<Longrightarrow>
   sched_calls ((sema_up p ^^ k) s) =
     sched_calls s @ concat (map (\<lambda>t. [Unblock t, Preempt]) (take k (wake_order s p))) \<and>
   wake_order ((sema_up p ^^ k) s) p = drop k (wake_order s p)"
proof (induction k)
  case 0
  then show ?case by simp
next
  case (Suc k)
  let ?sk = "(sema_up p ^^ k) s"
  let ?ws = "wake_order s p"
  have len: "length ?ws = length (waiters (semas s p))"
    by (simp add: wake_order_def)
  have k: "k < length ?ws" using Suc.prems len by simp
  have ih: "sched_calls ?sk = sched_calls s @ concat (map (\<lambda>t. [Unblock t, Preempt]) (take k ?ws))"
    "wake_order ?sk p = drop k ?ws"
    using Suc.IH Suc.prems by simp_all
  have "wake_order ?sk p \<noteq> []" using ih(2) k by simp
  then have ne: "waiters (semas ?sk p) \<noteq> []" by simp
  have hd: "hd (wake_order ?sk p) = ?ws ! k"
    using ih(2) k by (simp add: hd_drop_conv_nth)
  have calls: "sched_calls (sema_up p ?sk) =
      sched_calls s @ concat (map (\<lambda>t. [Unblock t, Preempt]) (take (Suc k) ?ws))"
    using sema_up_calls [OF ne] ih(1) hd k by (simp add: take_Suc_conv_app_nth)
  have o: "wake_order (sema_up p ?sk) p = drop (Suc k) ?ws"
    by (simp add: wake_order_after_up ih(2) drop_Suc tl_drop)
  show ?case using calls o by simp
qed

lemma sema_up_iterated_waiters:
  "k < length (waiters (semas s p)) \<Longrightarrow>
   waiters (semas ((sema_up p ^^ Suc k) s) p) = drop (Suc k) (wake_order s p)"
  using sema_up_iterated [of k s p]
  by (simp add: sema_up_waiters drop_Suc tl_drop)

lemma sema_up_others:
  "waiters (semas s p) \<noteq> [] \<Longrightarrow> u \<noteq> hd (wake_order s p) \<Longrightarrow>
   threads (sema_up p s) u = threads s u"
  by (simp add: sema_up_nonempty)

lemma sema_up_status:
  "waiters (semas s p) \<noteq> [] \<Longrightarrow>
   status (threads (sema_up p s) (hd (wake_order s p))) = THREAD_READY"
  by (simp add: sema_up_nonempty)

lemma wake_order_hd_Max:
  "waiters (semas s p) \<noteq> [] \<Longrightarrow>
   priority (threads s (hd (wake_order s p))) =
     Max ((\<lambda>t. priority (threads s t)) ` set (waiters (semas s p)))"
  using by_priority_hd_Max [OF by_priority_wake_order, of s p]
  by (simp add: wake_order_def)

subsection \<open>The donation engine on a blocking chain\<close>

lemma set_priority_fields [simp]:
  "origin_priority (threads (set_priority t p s) u) = origin_priority (threads s u)"
  "donations (threads (set_priority t p s) u) = donations (threads s u)"
  "wait_on_lock (threads (set_priority t p s) u) = wait_on_lock (threads s u)"
  "status (threads (set_priority t p s) u) = status (threads s u)"
  "priority (threads (set_priority t p s) u) = (if u = t then p else priority (threads s u))"
  "semas (set_priority t p s) = semas s"
  "holder (set_priority t p s) = holder s"
  "cond_waiters (set_priority t p s) = cond_waiters s"
  "cur (set_priority t p s) = cur s"
  "thread_mlfqs (set_priority t p s) = thread_mlfqs s"
  "in_intr_context (set_priority t p s) = in_intr_context s"
  "intr (set_priority t p s) = intr s"
  "sched_calls (set_priority t p s) = sched_calls s"
  by (simp_all add: set_priority_def)

lemma spec_donate_fields [simp]:
  "origin_priority (threads (spec_donate s t) u) = origin_priority (threads s u)"
  "donations (threads (spec_donate s t) u) = donations (threads s u)"
  "wait_on_lock (threads (spec_donate s t) u) = wait_on_lock (threads s u)"
  "status (threads (spec_donate s t) u) = status (threads s u)"
  "semas (spec_donate s t) = semas s"
  "holder (spec_donate s t) = holder s"
  "cond_waiters (spec_donate s t) = cond_waiters s"
  "cur (spec_donate s t) = cur s"
  "thread_mlfqs (spec_donate s t) = thread_mlfqs s"
  "in_intr_context (spec_donate s t) = in_intr_context s"
  "intr (spec_donate s t) = intr s"
  "sched_calls (spec_donate s t) = sched_calls s"
  by (simp_all add: spec_donate_def)

lemma spec_donate_priority:
  "priority (threads (spec_donate s t) u) =
     (if u = t then spec_effective_priority s t else priority (threads s u))"
  by (simp add: spec_donate_def)

lemma priority_donation_None: "priority_donation None s = Some (Inl Assertion_failed)"
  by (simp add: priority_donation.simps)

lemma priority_donation_step:
  "priority_donation (Some t) s =
     (case wait_on_lock (threads s t) of
        None \<Rightarrow> Some (Inr (spec_donate s t))
      | Some l \<Rightarrow> priority_donation (holder s l) (spec_donate s t))"
proof -
  have "(if donations (threads s t) = []
         then set_priority t (origin_priority (threads s t)) s
         else (let highest = hd (donations (threads s t))
               in if origin_priority (threads s t) < priority (threads s highest)
                  then set_priority t (priority (threads s highest)) s
                  else set_priority t (origin_priority (threads s t)) s)) = spec_donate s t"
    by (simp add: spec_donate_def spec_effective_priority_def Let_def max_def)
  then show ?thesis
    by (subst priority_donation.simps) (simp add: Let_def split: option.split)
qed

lemma blocking_chain_spec_donate [simp]:
  "blocking_chain (spec_donate s u) t ts = blocking_chain s t ts"
  by (induction ts arbitrary: t) (auto split: option.splits)

lemma blocking_chain_foldl_spec_donate [simp]:
  "blocking_chain (foldl spec_donate s us) t ts = blocking_chain s t ts"
  by (induction us arbitrary: s) auto

lemma priority_donation_chain:
  "blocking_chain s t ts \<Longrightarrow> priority_donation (Some t) s = Some (Inr (foldl spec_donate s ts))"
proof (induction ts arbitrary: s t)
  case Nil
  then show ?case by simp
next
  case (Cons u us)
  then have u: "u = t" by simp
  show ?case
  proof (cases "wait_on_lock (threads s t)")
    case None
    then show ?thesis using Cons.prems u by (simp add: priority_donation_step)
  next
    case (Some l)
    then obtain h where h: "holder s l = Some h" "blocking_chain s h us"
      using Cons.prems by (auto split: option.splits)
    have "blocking_chain (spec_donate s t) h us" using h(2) by simp
    from Cons.IH [OF this] show ?thesis
      using Some h(1) u by (simp add: priority_donation_step)
  qed
qed

lemma blocking_chain_hd: "blocking_chain s t ts \<Longrightarrow> ts \<noteq> [] \<and> hd ts = t"
  by (cases ts) auto

lemma blocking_chain_unique:
  "blocking_chain s t ts \<Longrightarrow> blocking_chain s t ts' \<Longrightarrow> ts = ts'"
proof (induction ts arbitrary: t ts')
  case Nil
  then show ?case by simp
next
  case (Cons u us)
  then obtain us' where ts': "ts' = u # us'" by (cases ts') auto
  show ?case
  proof (cases "wait_on_lock (threads s t)")
    case None
    then show ?thesis using Cons.prems ts' by simp
  next
    case (Some l)
    then obtain h where "holder s l = Some h" "blocking_chain s h us" "blocking_chain s h us'"
      using Cons.prems ts' by (auto split: option.splits)
    then show ?thesis using Cons.IH ts' by blast
  qed
qed

lemma blocking_chain_suffix:
  "blocking_chain s t ts \<Longrightarrow> u \<in> set ts \<Longrightarrow>
   \<exists>pre suf. ts = pre @ suf \<and> blocking_chain s u suf"
proof (induction ts arbitrary: t)
  case Nil
  then show ?case by simp
next
  case (Cons v vs)
  show ?case
  proof (cases "u = t")
    case True
    then show ?thesis using Cons.prems(1) by (intro exI [of _ "[]"] exI [of _ "v # vs"]) simp
  next
    case False
    then have uvs: "u \<in> set vs" using Cons.prems by auto
    then have "vs \<noteq> []" by auto
    then obtain l h where "wait_on_lock (threads s t) = Some l" "holder s l = Some h"
      "blocking_chain s h vs"
      using Cons.prems(1) by (auto split: option.splits)
    from Cons.IH [OF this(3) uvs] obtain pre suf where "vs = pre @ suf" "blocking_chain s u suf"
      by blast
    then show ?thesis by (intro exI [of _ "v # pre"] exI [of _ suf]) simp
  qed
qed

lemma blocking_chain_distinct: "blocking_chain s t ts \<Longrightarrow> distinct ts"
proof (induction ts arbitrary: t)
  case Nil
  then show ?case by simp
next
  case (Cons v vs)
  have v: "v = t" using Cons.prems by simp
  have "distinct vs"
  proof (cases "vs = []")
    case True then show ?thesis by simp
  next
    case False
    then obtain l h where "wait_on_lock (threads s t) = Some l" "holder s l = Some h"
      "blocking_chain s h vs"
      using Cons.prems(1) by (auto split: option.splits)
    then show ?thesis using Cons.IH by blast
  qed
  moreover have "t \<notin> set vs"
  proof
    assume "t \<in> set vs"
    then have ne: "vs \<noteq> []" by auto
    then obtain l h where "wait_on_lock (threads s t) = Some l" "holder s l = Some h"
      and ch: "blocking_chain s h vs"
      using Cons.prems(1) by (auto split: option.splits)
    from blocking_chain_suffix [OF ch \<open>t \<in> set vs\<close>]
    obtain pre suf where ps: "vs = pre @ suf" "blocking_chain s t suf" by blast
    from blocking_chain_unique [OF ps(2) Cons.prems] have "suf = v # vs" .
    then show False using ps(1) by (metis length_append length_Cons not_add_less2 lessI)
  qed
  ultimately show ?case using v by simp
qed

lemma foldl_spec_donate_fields [simp]:
  "origin_priority (threads (foldl spec_donate s us) u) = origin_priority (threads s u)"
  "donations (threads (foldl spec_donate s us) u) = donations (threads s u)"
  "wait_on_lock (threads (foldl spec_donate s us) u) = wait_on_lock (threads s u)"
  "status (threads (foldl spec_donate s us) u) = status (threads s u)"
  "semas (foldl spec_donate s us) = semas s"
  "holder (foldl spec_donate s us) = holder s"
  "cond_waiters (foldl spec_donate s us) = cond_waiters s"
  "cur (foldl spec_donate s us) = cur s"
  "thread_mlfqs (foldl spec_donate s us) = thread_mlfqs s"
  "in_intr_context (foldl spec_donate s us) = in_intr_context s"
  "intr (foldl spec_donate s us) = intr s"
  "sched_calls (foldl spec_donate s us) = sched_calls s"
  by (induction us arbitrary: s) simp_all

lemma foldl_spec_donate_other:
  "u \<notin> set us \<Longrightarrow> threads (foldl spec_donate s us) u = threads s u"
  by (induction us arbitrary: s) (auto simp: spec_donate_def set_priority_def)

lemma foldl_spec_donate_nth:
  assumes "distinct ts" "i < length ts"
  shows "priority (threads (foldl spec_donate s ts) (ts ! i)) =
         spec_effective_priority (foldl spec_donate s (take i ts)) (ts ! i)"
proof -
  have ts: "ts = take i ts @ ts ! i # drop (Suc i) ts"
    using assms(2) by (simp add: id_take_nth_drop)
  have "ts ! i \<notin> set (drop (Suc i) ts)"
    using assms ts by (metis distinct_append distinct.simps(2))
  then have "threads (foldl spec_donate s ts) (ts ! i) =
             threads (spec_donate (foldl spec_donate s (take i ts)) (ts ! i)) (ts ! i)"
    by (subst ts) (simp add: foldl_spec_donate_other)
  then show ?thesis by (simp add: spec_donate_priority)
qed

lemma spec_effective_priority_sorted:
  "donations (threads s t) \<noteq> [] \<Longrightarrow> by_priority s (donations (threads s t)) \<Longrightarrow>
   spec_effective_priority s t =
     max (origin_priority (threads s t))
         (Max ((\<lambda>d. priority (threads s d)) ` set (donations (threads s t))))"
  by (simp add: spec_effective_priority_def by_priority_hd_Max)

lemma spec_donate_noop:
  "spec_effective_priority s u = priority (threads s u) \<Longrightarrow> spec_donate s u = s"
  by (simp add: spec_donate_def set_priority_def)

lemma foldl_spec_donate_noop:
  "\<forall>u \<in> set us. spec_effective_priority s u = priority (threads s u) \<Longrightarrow>
   foldl spec_donate s us = s"
  by (induction us) (simp_all add: spec_donate_noop)

lemma donors_wait_on_spec_donate [simp]:
  "donors_wait_on (spec_donate s t) u = donors_wait_on s u"
  by (simp add: donors_wait_on_def cong: option.case_cong)

lemma blocking_chain_waiter_not_on_chain:
  assumes ch: "blocking_chain s t ts" and d: "d \<in> set ts"
    and w: "wait_on_lock (threads s d) = Some l" and h: "holder s l = Some t"
  shows False
proof -
  from blocking_chain_suffix [OF ch d] obtain pre suf where
    ps: "ts = pre @ suf" "blocking_chain s d suf" by blast
  then obtain rest where suf: "suf = d # rest" "blocking_chain s t rest"
    using w h by (cases suf) auto
  then have "rest \<noteq> []" "hd rest = t" using blocking_chain_hd by blast+
  then have trest: "t \<in> set rest" by (metis hd_in_set)
  have "ts \<noteq> []" "hd ts = t" using blocking_chain_hd [OF ch] by blast+
  then obtain us where us: "ts = t # us" by (cases ts) auto
  have "t \<in> set us"
  proof (cases pre)
    case Nil
    then show ?thesis using ps(1) suf(1) us trest by simp
  next
    case (Cons a pre')
    then show ?thesis using ps(1) suf(1) us trest by simp
  qed
  then show False using blocking_chain_distinct [OF ch] us by simp
qed

lemma spec_effective_priority_cong:
  "origin_priority (threads s' t) = origin_priority (threads s t) \<Longrightarrow>
   donations (threads s' t) = donations (threads s t) \<Longrightarrow>
   (donations (threads s t) \<noteq> [] \<Longrightarrow>
      priority (threads s' (hd (donations (threads s t)))) =
      priority (threads s (hd (donations (threads s t))))) \<Longrightarrow>
   spec_effective_priority s' t = spec_effective_priority s t"
  by (simp add: spec_effective_priority_def)

lemma donation_fixpoint:
  "blocking_chain s t ts \<Longrightarrow> \<forall>u \<in> set ts. donors_wait_on s u \<Longrightarrow> u \<in> set ts \<Longrightarrow>
   spec_effective_priority (foldl spec_donate s ts) u =
     priority (threads (foldl spec_donate s ts) u)"
proof (induction ts arbitrary: s t)
  case Nil
  then show ?case by simp
next
  case (Cons v us)
  have v: "v = t" using Cons.prems(1) by simp
  have dist: "distinct (t # us)" using blocking_chain_distinct [OF Cons.prems(1)] v by simp
  let ?s' = "spec_donate s t"
  let ?s1 = "foldl spec_donate ?s' us"
  show ?case
  proof (cases "u \<in> set us")
    case True
    then have "us \<noteq> []" by auto
    then obtain l h where "wait_on_lock (threads s t) = Some l" "holder s l = Some h"
      "blocking_chain s h us"
      using Cons.prems(1) by (auto split: option.splits)
    then have ch: "blocking_chain ?s' h us" by simp
    have dw: "\<forall>u \<in> set us. donors_wait_on ?s' u" using Cons.prems(2) by simp
    from Cons.IH [OF ch dw True] show ?thesis using v by simp
  next
    case False
    then have u: "u = t" using Cons.prems(3) v by simp
    have tnot: "t \<notin> set us" using dist by simp
    have p1: "priority (threads ?s1 t) = spec_effective_priority s t"
      by (simp add: foldl_spec_donate_other [OF tnot] spec_donate_priority)
    have "spec_effective_priority ?s1 t = spec_effective_priority s t"
    proof (rule spec_effective_priority_cong)
      assume ne: "donations (threads s t) \<noteq> []"
      let ?d = "hd (donations (threads s t))"
      have "?d \<in> set (donations (threads s t))" using ne by simp
      moreover have "donors_wait_on s t" using Cons.prems(2) v by simp
      ultimately obtain l where l: "wait_on_lock (threads s ?d) = Some l" "holder s l = Some t"
        by (auto simp: donors_wait_on_def list_all_iff split: option.splits)
      have dn: "?d \<notin> set (t # us)"
        using blocking_chain_waiter_not_on_chain [OF Cons.prems(1) [unfolded v] _ l] by blast
      then have "threads ?s1 ?d = threads ?s' ?d"
        by (simp add: foldl_spec_donate_other)
      moreover have "priority (threads ?s' ?d) = priority (threads s ?d)"
        using dn by (simp add: spec_donate_priority)
      ultimately show "priority (threads ?s1 ?d) = priority (threads s ?d)" by simp
    qed simp_all
    then show ?thesis using p1 u v by simp
  qed
qed

lemma foldl_spec_donate_propagates:
  assumes d: "distinct ts" and i: "Suc i < length ts"
    and ne: "donations (threads s (ts ! Suc i)) \<noteq> []"
    and hd: "hd (donations (threads s (ts ! Suc i))) = ts ! i"
  shows "priority (threads (foldl spec_donate s ts) (ts ! Suc i)) =
         max (origin_priority (threads s (ts ! Suc i)))
             (priority (threads (foldl spec_donate s ts) (ts ! i)))"
proof -
  let ?pre = "take (Suc i) ts"
  have dpre: "distinct ?pre" using d by simp
  have ipre: "i < length ?pre" using i by simp
  have "priority (threads (foldl spec_donate s ?pre) (?pre ! i)) =
        spec_effective_priority (foldl spec_donate s (take i ?pre)) (?pre ! i)"
    by (rule foldl_spec_donate_nth [OF dpre ipre])
  then have a: "priority (threads (foldl spec_donate s ?pre) (ts ! i)) =
        spec_effective_priority (foldl spec_donate s (take i ts)) (ts ! i)"
    by (simp add: min_def)
  have b: "priority (threads (foldl spec_donate s ts) (ts ! i)) =
        spec_effective_priority (foldl spec_donate s (take i ts)) (ts ! i)"
    using foldl_spec_donate_nth [OF d, of i s] i by simp
  have "priority (threads (foldl spec_donate s ts) (ts ! Suc i)) =
        spec_effective_priority (foldl spec_donate s ?pre) (ts ! Suc i)"
    by (rule foldl_spec_donate_nth [OF d i])
  also have "\<dots> = max (origin_priority (threads s (ts ! Suc i)))
                      (priority (threads (foldl spec_donate s ?pre) (ts ! i)))"
    using ne hd by (simp add: spec_effective_priority_def)
  finally show ?thesis using a b by simp
qed

lemma foldl_spec_donate_take:
  assumes d: "distinct ts" and i: "i < length ts"
  shows "priority (threads (foldl spec_donate s (take (Suc i) ts)) (ts ! i)) =
         priority (threads (foldl spec_donate s ts) (ts ! i))"
proof -
  let ?pre = "take (Suc i) ts"
  have dpre: "distinct ?pre" using d by simp
  have ipre: "i < length ?pre" using i by simp
  have "priority (threads (foldl spec_donate s ?pre) (?pre ! i)) =
        spec_effective_priority (foldl spec_donate s (take i ?pre)) (?pre ! i)"
    by (rule foldl_spec_donate_nth [OF dpre ipre])
  then have "priority (threads (foldl spec_donate s ?pre) (ts ! i)) =
        spec_effective_priority (foldl spec_donate s (take i ts)) (ts ! i)"
    by (simp add: min_def)
  then show ?thesis using foldl_spec_donate_nth [OF d i, of s] by simp
qed

lemma foldl_spec_donate_propagates_sorted:
  assumes d: "distinct ts" and i: "Suc i < length ts"
    and mem: "ts ! i \<in> set (donations (threads s (ts ! Suc i)))"
    and srt: "by_priority (foldl spec_donate s (take (Suc i) ts))
                (donations (threads s (ts ! Suc i)))"
  shows "priority (threads (foldl spec_donate s ts) (ts ! i))
         \<le> priority (threads (foldl spec_donate s ts) (ts ! Suc i))"
proof -
  let ?S = "foldl spec_donate s (take (Suc i) ts)"
  let ?h = "ts ! Suc i"
  let ?ds = "donations (threads s ?h)"
  have ne: "donations (threads ?S ?h) \<noteq> []" using mem by auto
  have srt': "by_priority ?S (donations (threads ?S ?h))" using srt by simp
  have "priority (threads (foldl spec_donate s ts) ?h) = spec_effective_priority ?S ?h"
    by (rule foldl_spec_donate_nth [OF d i])
  also have "\<dots> = max (origin_priority (threads ?S ?h))
                      (Max ((\<lambda>d. priority (threads ?S d)) ` set (donations (threads ?S ?h))))"
    by (rule spec_effective_priority_sorted [OF ne srt'])
  finally have p: "priority (threads (foldl spec_donate s ts) ?h) =
      max (origin_priority (threads s ?h)) (Max ((\<lambda>d. priority (threads ?S d)) ` set ?ds))"
    by simp
  have "priority (threads ?S (ts ! i)) \<le> Max ((\<lambda>d. priority (threads ?S d)) ` set ?ds)"
    using mem by (intro Max_ge) auto
  moreover have "priority (threads ?S (ts ! i)) = priority (threads (foldl spec_donate s ts) (ts ! i))"
    using foldl_spec_donate_take [OF d, of i s] i by simp
  ultimately show ?thesis using p by simp
qed

lemma priority_donation_returns_chain:
  assumes "priority_donation tp s = Some r"
  shows "\<forall>s'. r = Inr s' \<longrightarrow>
           (\<exists>t ts. tp = Some t \<and> blocking_chain s t ts \<and> s' = foldl spec_donate s ts)"
proof (rule priority_donation.raw_induct [OF _ assms], goal_cases)
  case (1 pd tp s r)
  note IH = "1" (1) and body = "1" (2)
  show ?case
  proof (cases tp)
    case None
    then show ?thesis using body by auto
  next
    case (Some t)
    have eq: "(if donations (threads s t) = []
         then set_priority t (origin_priority (threads s t)) s
         else (let highest = hd (donations (threads s t))
               in if origin_priority (threads s t) < priority (threads s highest)
                  then set_priority t (priority (threads s highest)) s
                  else set_priority t (origin_priority (threads s t)) s)) = spec_donate s t"
      by (simp add: spec_donate_def spec_effective_priority_def Let_def max_def)
    show ?thesis
    proof (cases "wait_on_lock (threads s t)")
      case None
      then have "r = Inr (spec_donate s t)"
        using body Some eq by (simp add: Let_def)
      moreover have "blocking_chain s t [t]" using None by simp
      ultimately show ?thesis using Some by (intro allI impI exI [of _ t] exI [of _ "[t]"]) simp
    next
      case (Some l)
      then have rec: "pd (holder s l) (spec_donate s t) = Some r"
        using body \<open>tp = Some t\<close> eq by (simp add: Let_def)
      show ?thesis
      proof (intro allI impI)
        fix s' assume "r = Inr s'"
        with IH [OF rec] obtain h ts where
          h: "holder s l = Some h" "blocking_chain (spec_donate s t) h ts"
             "s' = foldl spec_donate (spec_donate s t) ts"
          by auto
        then have "blocking_chain s t (t # ts)" using Some by simp
        then show "\<exists>t ts. tp = Some t \<and> blocking_chain s t ts \<and> s' = foldl spec_donate s ts"
          using h(3) \<open>tp = Some t\<close> by (intro exI [of _ t] exI [of _ "t # ts"]) simp
      qed
    qed
  qed
qed

lemma priority_donation_Inr_fields:
  assumes "priority_donation tp s = Some (Inr s')"
  shows "cur s' = cur s" "holder s' = holder s" "semas s' = semas s"
    "wait_on_lock (threads s' u) = wait_on_lock (threads s u)"
    "donations (threads s' u) = donations (threads s u)"
    "in_intr_context s' = in_intr_context s" "intr s' = intr s"
  using priority_donation_returns_chain [OF assms] by auto

subsection \<open>Reading a field after a write\<close>

lemma set_donations_fields [simp]:
  "priority (threads (set_donations t ds s) u) = priority (threads s u)"
  "origin_priority (threads (set_donations t ds s) u) = origin_priority (threads s u)"
  "donations (threads (set_donations t ds s) u) = (if u = t then ds else donations (threads s u))"
  "wait_on_lock (threads (set_donations t ds s) u) = wait_on_lock (threads s u)"
  "status (threads (set_donations t ds s) u) = status (threads s u)"
  "semas (set_donations t ds s) = semas s"
  "holder (set_donations t ds s) = holder s"
  "cond_waiters (set_donations t ds s) = cond_waiters s"
  "cur (set_donations t ds s) = cur s"
  "thread_mlfqs (set_donations t ds s) = thread_mlfqs s"
  "in_intr_context (set_donations t ds s) = in_intr_context s"
  "intr (set_donations t ds s) = intr s"
  "sched_calls (set_donations t ds s) = sched_calls s"
  by (simp_all add: set_donations_def)

lemma set_holder_fields [simp]:
  "threads (set_holder l h s) = threads s"
  "semas (set_holder l h s) = semas s"
  "holder (set_holder l h s) k = (if k = l then h else holder s k)"
  "cond_waiters (set_holder l h s) = cond_waiters s"
  "cur (set_holder l h s) = cur s"
  "thread_mlfqs (set_holder l h s) = thread_mlfqs s"
  "in_intr_context (set_holder l h s) = in_intr_context s"
  "intr (set_holder l h s) = intr s"
  "sched_calls (set_holder l h s) = sched_calls s"
  by (simp_all add: set_holder_def)

lemma set_waiters_fields [simp]:
  "threads (set_waiters p ws s) = threads s"
  "sema_value (semas (set_waiters p ws s) q) = sema_value (semas s q)"
  "waiters (semas (set_waiters p ws s) q) = (if q = p then ws else waiters (semas s q))"
  "holder (set_waiters p ws s) = holder s"
  "cond_waiters (set_waiters p ws s) = cond_waiters s"
  "cur (set_waiters p ws s) = cur s"
  "thread_mlfqs (set_waiters p ws s) = thread_mlfqs s"
  "in_intr_context (set_waiters p ws s) = in_intr_context s"
  "intr (set_waiters p ws s) = intr s"
  "sched_calls (set_waiters p ws s) = sched_calls s"
  by (simp_all add: set_waiters_def)

lemma set_sema_value_fields [simp]:
  "threads (set_sema_value p v s) = threads s"
  "sema_value (semas (set_sema_value p v s) q) = (if q = p then v else sema_value (semas s q))"
  "waiters (semas (set_sema_value p v s) q) = waiters (semas s q)"
  "holder (set_sema_value p v s) = holder s"
  "cond_waiters (set_sema_value p v s) = cond_waiters s"
  "cur (set_sema_value p v s) = cur s"
  "thread_mlfqs (set_sema_value p v s) = thread_mlfqs s"
  "in_intr_context (set_sema_value p v s) = in_intr_context s"
  "intr (set_sema_value p v s) = intr s"
  "sched_calls (set_sema_value p v s) = sched_calls s"
  by (simp_all add: set_sema_value_def)

lemma set_wait_on_lock_fields [simp]:
  "priority (threads (set_wait_on_lock t l s) u) = priority (threads s u)"
  "origin_priority (threads (set_wait_on_lock t l s) u) = origin_priority (threads s u)"
  "donations (threads (set_wait_on_lock t l s) u) = donations (threads s u)"
  "wait_on_lock (threads (set_wait_on_lock t l s) u) =
     (if u = t then l else wait_on_lock (threads s u))"
  "status (threads (set_wait_on_lock t l s) u) = status (threads s u)"
  "semas (set_wait_on_lock t l s) = semas s"
  "holder (set_wait_on_lock t l s) = holder s"
  "cond_waiters (set_wait_on_lock t l s) = cond_waiters s"
  "cur (set_wait_on_lock t l s) = cur s"
  "thread_mlfqs (set_wait_on_lock t l s) = thread_mlfqs s"
  "in_intr_context (set_wait_on_lock t l s) = in_intr_context s"
  "intr (set_wait_on_lock t l s) = intr s"
  "sched_calls (set_wait_on_lock t l s) = sched_calls s"
  by (simp_all add: set_wait_on_lock_def)

subsection \<open>\<^verbatim>\<open>lock_release\<close>\<close>

lemma and_then_Inr:
  "and_then m f = Some (Inr y) \<Longrightarrow> \<exists>x. m = Some (Inr x) \<and> f x = Some (Inr y)"
  by (auto simp: and_then_def split: option.splits sum.splits)

lemma and_then_InrE:
  assumes "and_then m f = Some (Inr y)"
  obtains x where "m = Some (Inr x)" "f x = Some (Inr y)"
  using and_then_Inr [OF assms] by blast

lemma and_then_simps [simp]:
  "and_then None f = None"
  "and_then (Some (Inl e)) f = Some (Inl e)"
  "and_then (Some (Inr x)) f = f x"
  by (simp_all add: and_then_def)

lemma and_then_assoc:
  "and_then (and_then m f) g = and_then m (\<lambda>x. and_then (f x) g)"
  by (simp add: and_then_def split: option.split sum.split)

lemma cmp_priority_donation_set_donations [simp]:
  "cmp_priority_donation (set_donations t ds s) = cmp_priority_donation s"
  by (intro ext) (simp add: cmp_priority_donation_def)

lemma set_donations_twice [simp]:
  "set_donations t ds (set_donations t ds' s) = set_donations t ds s"
  by (simp add: set_donations_def)

lemma blocking_chain_set_donations [simp]:
  "blocking_chain (set_donations u ds s) t ts = blocking_chain s t ts"
  by (induction ts arbitrary: t) (auto split: option.splits)

lemma by_priority_kept_donations: "by_priority s (kept_donations s l)"
  by (simp add: kept_donations_def by_priority_list_sort_cmp_priority_donation)

lemma lock_release_chain:
  assumes held: "lock_held_by_current_thread l s" and don: "\<not> thread_mlfqs s"
    and ch: "blocking_chain s (cur s) ts"
  shows "lock_release l s =
     Some (Inr (sema_up (LockSema l)
       (set_holder l None
          (foldl spec_donate (set_donations (cur s) (kept_donations s l) s) ts))))"
proof -
  let ?h = "cur s"
  let ?s2 = "set_donations ?h (kept_donations s l) s"
  have h: "holder s l = Some ?h" using held by (simp add: lock_held_by_current_thread_def)
  have ch2: "blocking_chain ?s2 ?h ts" using ch by simp
  have pd: "priority_donation (Some ?h) ?s2 = Some (Inr (foldl spec_donate ?s2 ts))"
    by (rule priority_donation_chain [OF ch2])
  show ?thesis
    unfolding lock_release_def using held don h
    by (simp add: Let_def remove_waiters_filter kept_donations_def [symmetric] pd and_then_def)
qed

lemma sema_up_same_thread_fields [simp]:
  "priority (threads (sema_up p s) u) = priority (threads s u)"
  "origin_priority (threads (sema_up p s) u) = origin_priority (threads s u)"
  "donations (threads (sema_up p s) u) = donations (threads s u)"
  "wait_on_lock (threads (sema_up p s) u) = wait_on_lock (threads s u)"
  "holder (sema_up p s) = holder s"
  "cur (sema_up p s) = cur s"
  by (cases "waiters (semas s p) = []"; simp add: sema_up_empty sema_up_nonempty)+

lemma lock_release_returns_chain:
  assumes held: "lock_held_by_current_thread l s" and don: "\<not> thread_mlfqs s"
    and r: "lock_release l s = Some (Inr s')"
  shows "\<exists>ts. blocking_chain s (cur s) ts"
proof -
  let ?h = "cur s"
  let ?s2 = "set_donations ?h (kept_donations s l) s"
  have h: "holder s l = Some ?h" using held by (simp add: lock_held_by_current_thread_def)
  have eq: "lock_release l s =
      and_then (priority_donation (Some ?h) ?s2)
        (\<lambda>s3. Some (Inr (sema_up (LockSema l) (set_holder l None s3))))"
    unfolding lock_release_def using held don h
    by (simp add: Let_def remove_waiters_filter kept_donations_def [symmetric])
  from r [unfolded eq] obtain s3 where "priority_donation (Some ?h) ?s2 = Some (Inr s3)"
    by (rule and_then_InrE)
  from priority_donation_returns_chain [OF this] obtain ts where "blocking_chain ?s2 ?h ts"
    by auto
  then show ?thesis by auto
qed

subsection \<open>\<^verbatim>\<open>sema_down\<close>\<close>

lemma sema_down_loop_exit:
  "sema_value (semas s p) \<noteq> 0 \<Longrightarrow> sema_down_loop p w s = Some (w, s)"
  by (subst sema_down_loop.simps) simp

lemma sema_down_loop_turn:
  "sema_value (semas s p) = 0 \<Longrightarrow>
   sema_down_loop p w s =
     (case thread_block w
             (set_waiters p (list_insert_ordered (cmp_priority s) (cur s) (waiters (semas s p))) s) of
        None \<Rightarrow> None
      | Some (w', s') \<Rightarrow> sema_down_loop p w' s')"
  by (subst sema_down_loop.simps) simp

lemma thread_block_cur: "thread_block w s = Some (w', s') \<Longrightarrow> cur s' = cur s"
  by (auto simp: thread_block_def Let_def split: list.splits if_splits)

lemma sema_down_loop_result:
  "sema_down_loop p w s = Some (w', s') \<Longrightarrow> sema_value (semas s' p) \<noteq> 0 \<and> cur s' = cur s"
proof (induction p w s rule: sema_down_loop.induct)
  case (1 p w s)
  show ?case
  proof (cases "sema_value (semas s p) = 0")
    case True
    let ?q = "set_waiters p (list_insert_ordered (cmp_priority s) (cur s) (waiters (semas s p))) s"
    from "1.prems" True obtain w1 s1 where
      tb: "thread_block w ?q = Some (w1, s1)" and rest: "sema_down_loop p w1 s1 = Some (w', s')"
      by (auto simp: sema_down_loop_turn split: option.splits)
    from "1.IH" [OF True tb refl rest] thread_block_cur [OF tb]
    show ?thesis by simp
  next
    case False
    then show ?thesis using "1.prems" by (simp add: sema_down_loop_exit)
  qed
qed

lemma sema_down_unfold:
  "\<not> in_intr_context s \<Longrightarrow>
   sema_down p w s =
     (case sema_down_loop p w (s\<lparr>intr := INTR_OFF\<rparr>) of
        None \<Rightarrow> None
      | Some (w', s2) \<Rightarrow>
          Some (Inr (w', (set_sema_value p (sema_value (semas s2 p) - 1) s2)\<lparr>intr := intr s\<rparr>)))"
  by (simp add: sema_down_def intr_disable_def intr_set_level_def split: option.split)

lemma sema_down_returns:
  assumes "sema_down p w s = Some (Inr (w', s'))"
  shows "\<exists>s2. sema_down_loop p w (s\<lparr>intr := INTR_OFF\<rparr>) = Some (w', s2) \<and>
              sema_value (semas s2 p) \<noteq> 0 \<and>
              s' = (set_sema_value p (sema_value (semas s2 p) - 1) s2)\<lparr>intr := intr s\<rparr> \<and>
              Suc (unat (sema_value (semas s' p))) = unat (sema_value (semas s2 p)) \<and>
              cur s' = cur s"
proof -
  have ni: "\<not> in_intr_context s" using assms by (auto simp: sema_down_def)
  from assms obtain s2 where
    l: "sema_down_loop p w (s\<lparr>intr := INTR_OFF\<rparr>) = Some (w', s2)" and
    s': "s' = (set_sema_value p (sema_value (semas s2 p) - 1) s2)\<lparr>intr := intr s\<rparr>"
    by (auto simp: sema_down_unfold [OF ni] split: option.splits)
  from sema_down_loop_result [OF l] have nz: "sema_value (semas s2 p) \<noteq> 0" and c: "cur s2 = cur s"
    by simp_all
  show ?thesis using l s' nz c by (simp add: unat_dec_suc)
qed

lemma by_priority_list_insert_ordered:
  "by_priority s ws \<Longrightarrow> by_priority s (list_insert_ordered (cmp_priority s) t ws)"
  unfolding by_priority_def
  using sorted_list_insert_ordered [of "\<lambda>t. priority (threads s t)" ws t]
  by (simp add: cmp_priority_def [abs_def])

lemma sema_down_loop_by_turn:
  "sema_down_loop p w s =
     (case sema_down_turn p s of
        Inl s1 \<Rightarrow> (case thread_block w s1 of
                     None \<Rightarrow> None
                   | Some (w', s') \<Rightarrow> sema_down_loop p w' s')
      | Inr s2 \<Rightarrow> Some (w, s))"
  by (cases "sema_value (semas s p) = 0")
     (simp_all add: sema_down_turn_def sema_down_loop_turn sema_down_loop_exit)

lemma sema_run_snoc:
  "sema_run p v s (evs @ [ev]) = sema_event_step p (sema_run p v s evs) ev"
  by (simp add: sema_run_def)

lemma unat_inc_le: "unat ((v :: 32 word) + 1) \<le> Suc (unat v)"
proof -
  have "unat (v + 1) = (unat v + 1) mod 2 ^ 32" by (simp add: unat_word_ariths)
  also have "\<dots> \<le> unat v + 1" by (rule mod_less_eq_dividend)
  finally show ?thesis by simp
qed

lemma sema_event_step_invariant:
  assumes "completed_downs c + unat (sema_value (semas (state c) p)) \<le> completed_ups c + n"
  shows "completed_downs (sema_event_step p c ev) +
           unat (sema_value (semas (state (sema_event_step p c ev)) p))
         \<le> completed_ups (sema_event_step p c ev) + n"
proof (cases ev)
  case (Ev_up t)
  have "unat (sema_value (semas (sema_up p ((state c)\<lparr>cur := t\<rparr>)) p))
        \<le> Suc (unat (sema_value (semas (state c) p)))"
    using unat_inc_le [of "sema_value (semas (state c) p)"] by (simp add: sema_up_value)
  then show ?thesis using assms Ev_up by simp
next
  case (Ev_try_down t)
  show ?thesis
  proof (cases "sema_value (semas (state c) p) = 0")
    case True
    then show ?thesis using assms Ev_try_down by (simp add: sema_try_down_zero)
  next
    case False
    then show ?thesis
      using assms Ev_try_down unat_dec_suc [OF False] by (simp add: sema_try_down_pos)
  qed
next
  case (Ev_down_turn t)
  show ?thesis
  proof (cases "sema_value (semas (state c) p) = 0")
    case True
    then show ?thesis using assms Ev_down_turn by (simp add: sema_down_turn_def)
  next
    case False
    then show ?thesis
      using assms Ev_down_turn unat_dec_suc [OF False] by (simp add: sema_down_turn_def)
  qed
qed

lemma sema_run_invariant:
  "completed_downs (sema_run p v s evs) +
     unat (sema_value (semas (state (sema_run p v s evs)) p))
   \<le> completed_ups (sema_run p v s evs) + unat v"
proof (induction evs rule: rev_induct)
  case Nil
  then show ?case by (simp add: sema_run_def sema_init_def)
next
  case (snoc ev evs)
  then show ?case unfolding sema_run_snoc by (rule sema_event_step_invariant)
qed

subsection \<open>\<^verbatim>\<open>lock_acquire\<close>\<close>

lemma lock_try_acquire_zero:
  "\<not> lock_held_by_current_thread l s \<Longrightarrow> sema_value (semas s (LockSema l)) = 0 \<Longrightarrow>
   lock_try_acquire l s = Inr (False, s)"
  by (simp add: lock_try_acquire_def sema_try_down_zero)

lemma lock_try_acquire_pos:
  "\<not> lock_held_by_current_thread l s \<Longrightarrow> sema_value (semas s (LockSema l)) \<noteq> 0 \<Longrightarrow>
   lock_try_acquire l s =
     Inr (True, set_holder l (Some (cur s))
                  (set_sema_value (LockSema l) (sema_value (semas s (LockSema l)) - 1) s))"
  by (simp add: lock_try_acquire_def sema_try_down_pos)

lemma lock_acquire_fast:
  "\<not> in_intr_context s \<Longrightarrow> \<not> lock_held_by_current_thread l s \<Longrightarrow>
   sema_value (semas s (LockSema l)) \<noteq> 0 \<Longrightarrow>
   lock_acquire l w s =
     Some (Inr (w, set_wait_on_lock (cur s) None
                     (set_holder l (Some (cur s))
                        (set_sema_value (LockSema l) (sema_value (semas s (LockSema l)) - 1) s))))"
  by (simp add: lock_acquire_def lock_try_acquire_pos)

lemma donate_to_holder_cur:
  assumes d: "donate_to_holder l s = Some (Inr s')"
  shows "cur s' = cur s \<and> in_intr_context s' = in_intr_context s"
proof (cases "thread_mlfqs s")
  case True
  then show ?thesis using d by (auto simp: donate_to_holder_def)
next
  case False
  then obtain h where
    "priority_donation (Some h)
       (set_donations h (list_insert_ordered (cmp_priority_donation s) (cur s)
                           (donations (threads s h))) s) = Some (Inr s')"
    using d by (auto simp: donate_to_holder_def Let_def split: option.splits)
  from priority_donation_Inr_fields(1,6) [OF this] show ?thesis by simp
qed

lemma lock_acquire_slow:
  "\<not> in_intr_context s \<Longrightarrow> \<not> lock_held_by_current_thread l s \<Longrightarrow>
   sema_value (semas s (LockSema l)) = 0 \<Longrightarrow>
   lock_acquire l w s =
     and_then (donate_to_holder l (set_wait_on_lock (cur s) (Some l) s))
       (\<lambda>s4. and_then (sema_down (LockSema l) w s4)
          (\<lambda>(w', s5). Some (Inr (w', set_wait_on_lock (cur s5) None
                                       (set_holder l (Some (cur s5)) s5)))))"
  unfolding lock_acquire_def donate_to_holder_def
  by (simp add: lock_try_acquire_zero Let_def and_then_assoc split_def)

lemma lock_acquire_asserts:
  "in_intr_context s \<Longrightarrow> lock_acquire l w s = Some (Inl Assertion_failed)"
  "lock_held_by_current_thread l s \<Longrightarrow> lock_acquire l w s = Some (Inl Assertion_failed)"
  by (simp_all add: lock_acquire_def)

lemma lock_acquire_returns:
  assumes "lock_acquire l w s = Some (Inr (w', s'))"
  shows "holder s' l = Some (cur s) \<and> wait_on_lock (threads s' (cur s)) = None \<and> cur s' = cur s"
proof -
  have pre: "\<not> in_intr_context s" "\<not> lock_held_by_current_thread l s"
    using assms lock_acquire_asserts [where s = s and l = l and w = w] by auto
  show ?thesis
  proof (cases "sema_value (semas s (LockSema l)) = 0")
    case False
    then have "s' = set_wait_on_lock (cur s) None
                     (set_holder l (Some (cur s))
                        (set_sema_value (LockSema l) (sema_value (semas s (LockSema l)) - 1) s))"
      using assms by (simp add: lock_acquire_fast [OF pre])
    then show ?thesis by simp
  next
    case True
    let ?F = "\<lambda>s4. and_then (sema_down (LockSema l) w s4)
          (\<lambda>(w', s5). Some (Inr (w', set_wait_on_lock (cur s5) None
                                       (set_holder l (Some (cur s5)) s5))))"
    have a: "and_then (donate_to_holder l (set_wait_on_lock (cur s) (Some l) s)) ?F =
             Some (Inr (w', s'))"
      using assms by (simp only: lock_acquire_slow [OF pre True])
    from a obtain s4 where
      d: "donate_to_holder l (set_wait_on_lock (cur s) (Some l) s) = Some (Inr s4)"
      and r: "?F s4 = Some (Inr (w', s'))"
      by (rule and_then_InrE)
    from r obtain w5 s5 where
      sd: "sema_down (LockSema l) w s4 = Some (Inr (w5, s5))" and
      s': "s' = set_wait_on_lock (cur s5) None (set_holder l (Some (cur s5)) s5)"
      by (auto simp: and_then_def split: option.splits sum.splits)
    have "cur s4 = cur s" using donate_to_holder_cur [OF d] by simp
    moreover have "cur s5 = cur s4" using sema_down_returns [OF sd] by blast
    ultimately show ?thesis using s' by simp
  qed
qed

subsection \<open>Evaluation on the example states\<close>

lemmas example_defs = boot_def new_thread_def idle_thread_def blocked_thread_def
  set_priority_def set_donations_def set_wait_on_lock_def set_status_def set_holder_def
  set_sema_value_def set_waiters_def set_cond_waiters_def
  lock_held_by_current_thread_def spec_donate_def spec_effective_priority_def
  cmp_priority_def cmp_priority_donation_def list_sort_def is_waiter_def
  thread_unblock_def thread_preempt_def intr_disable_def intr_set_level_def

lemma donation_chain_eval:
  "blocking_chain donation_chain 2 [2, 3]"
  "donors_wait_on donation_chain 2" "donors_wait_on donation_chain 3"
  "by_priority donation_chain (donations (threads donation_chain 2))"
  "priority (threads (foldl spec_donate donation_chain [2, 3]) 2) = 50"
  "priority (threads (foldl spec_donate donation_chain [2, 3]) 3) = 50"
  "priority (threads donation_chain 2) = 20"
  "priority (threads donation_chain 3) = 20"
  by (simp_all add: donation_chain_def boot_def new_thread_def blocked_thread_def idle_thread_def
      donors_wait_on_def by_priority_def spec_donate_def spec_effective_priority_def
      set_priority_def)

lemma contended_acquire:
  "\<exists>s'. lock_acquire 0 [release_by 1 0] contended = Some (Inr ([], s')) \<and>
        holder s' 0 = Some 2 \<and> wait_on_lock (threads s' 2) = None \<and>
        priority (threads s' 1) = 20 \<and> donations (threads s' 1) = [] \<and>
        sema_value (semas s' (LockSema 0)) = 0 \<and>
        sched_calls s' = [Block 2, Unblock 2, Preempt]"
  by (simp add: lock_acquire_slow donate_to_holder_def priority_donation_step
      sema_down_unfold sema_down_loop_turn sema_down_loop_exit thread_block_def
      release_by_def lock_release_def sema_up_def Let_def contended_def example_defs)

subsection \<open>The donation engine, step by step and along a chain\<close>

text \<open>
  One step of \<^verbatim>\<open>priority_donation\<close> on \<open>t\<close> writes only the priority of \<open>t\<close>:
  its \<open>origin_priority\<close> when \<open>donations\<close> is empty, otherwise the maximum of
  \<open>origin_priority\<close> and the priority of the head of \<open>donations\<close>, and then
  continues with the holder of the lock \<open>t\<close> waits on. On a finite blocking chain
  it returns, having applied the step to every thread of the chain in order and to no
  other thread. The new priority reaches the next holder when the predecessor is the
  head of the holder's donation list, or when that list is sorted by current priority
  at the holder's turn; the function does not sort the list itself.
\<close>

lemma priority_donation_on_chain:
  "priority_donation (Some t) s =
     (case wait_on_lock (threads s t) of
        None \<Rightarrow> Some (Inr (spec_donate s t))
      | Some l \<Rightarrow> priority_donation (holder s l) (spec_donate s t)) \<and>
   priority (threads (spec_donate s t) t) =
     (if donations (threads s t) = [] then origin_priority (threads s t)
      else max (origin_priority (threads s t))
               (priority (threads s (hd (donations (threads s t)))))) \<and>
   (\<forall>u. u \<noteq> t \<longrightarrow> threads (spec_donate s t) u = threads s u) \<and>
   (donations (threads s t) \<noteq> [] \<and> by_priority s (donations (threads s t)) \<longrightarrow>
      priority (threads s (hd (donations (threads s t)))) =
        Max ((\<lambda>d. priority (threads s d)) ` set (donations (threads s t)))) \<and>
   (blocking_chain s t ts \<longrightarrow>
      priority_donation (Some t) s = Some (Inr (foldl spec_donate s ts)) \<and>
      (\<forall>i < length ts.
         priority (threads (foldl spec_donate s ts) (ts ! i)) =
           spec_effective_priority (foldl spec_donate s (take i ts)) (ts ! i)) \<and>
      (\<forall>i. Suc i < length ts \<and> donations (threads s (ts ! Suc i)) \<noteq> [] \<and>
            hd (donations (threads s (ts ! Suc i))) = ts ! i \<longrightarrow>
         priority (threads (foldl spec_donate s ts) (ts ! Suc i)) =
           max (origin_priority (threads s (ts ! Suc i)))
               (priority (threads (foldl spec_donate s ts) (ts ! i)))) \<and>
      (\<forall>i. Suc i < length ts \<and> ts ! i \<in> set (donations (threads s (ts ! Suc i))) \<and>
            by_priority (foldl spec_donate s (take (Suc i) ts))
              (donations (threads s (ts ! Suc i))) \<longrightarrow>
         priority (threads (foldl spec_donate s ts) (ts ! i))
           \<le> priority (threads (foldl spec_donate s ts) (ts ! Suc i))) \<and>
      (\<forall>u. u \<notin> set ts \<longrightarrow> threads (foldl spec_donate s ts) u = threads s u))"
proof (intro conjI impI allI)
  show "priority_donation (Some t) s =
     (case wait_on_lock (threads s t) of
        None \<Rightarrow> Some (Inr (spec_donate s t))
      | Some l \<Rightarrow> priority_donation (holder s l) (spec_donate s t))"
    by (rule priority_donation_step)
  show "priority (threads (spec_donate s t) t) =
     (if donations (threads s t) = [] then origin_priority (threads s t)
      else max (origin_priority (threads s t))
               (priority (threads s (hd (donations (threads s t))))))"
    by (simp add: spec_donate_priority spec_effective_priority_def)
  show "threads (spec_donate s t) u = threads s u" if "u \<noteq> t" for u
    using that by (simp add: spec_donate_def set_priority_def)
  show "priority (threads s (hd (donations (threads s t)))) =
        Max ((\<lambda>d. priority (threads s d)) ` set (donations (threads s t)))"
    if "donations (threads s t) \<noteq> [] \<and> by_priority s (donations (threads s t))"
    using that by (simp add: by_priority_hd_Max)
  show "priority_donation (Some t) s = Some (Inr (foldl spec_donate s ts))"
    if "blocking_chain s t ts"
    using that by (rule priority_donation_chain)
  show "priority (threads (foldl spec_donate s ts) (ts ! i)) =
           spec_effective_priority (foldl spec_donate s (take i ts)) (ts ! i)"
    if "blocking_chain s t ts" "i < length ts" for i
    using that by (simp add: foldl_spec_donate_nth blocking_chain_distinct)
  show "priority (threads (foldl spec_donate s ts) (ts ! Suc i)) =
           max (origin_priority (threads s (ts ! Suc i)))
               (priority (threads (foldl spec_donate s ts) (ts ! i)))"
    if "blocking_chain s t ts"
       "Suc i < length ts \<and> donations (threads s (ts ! Suc i)) \<noteq> [] \<and>
            hd (donations (threads s (ts ! Suc i))) = ts ! i" for i
    using that foldl_spec_donate_propagates [OF blocking_chain_distinct, of s t ts i s] by blast
  show "priority (threads (foldl spec_donate s ts) (ts ! i))
           \<le> priority (threads (foldl spec_donate s ts) (ts ! Suc i))"
    if "blocking_chain s t ts"
       "Suc i < length ts \<and> ts ! i \<in> set (donations (threads s (ts ! Suc i))) \<and>
            by_priority (foldl spec_donate s (take (Suc i) ts))
              (donations (threads s (ts ! Suc i)))" for i
    using that foldl_spec_donate_propagates_sorted [OF blocking_chain_distinct, of s t ts i s]
    by blast
  show "threads (foldl spec_donate s ts) u = threads s u"
    if "blocking_chain s t ts" "u \<notin> set ts" for u
    using that by (simp add: foldl_spec_donate_other)
qed

section \<open>The claims\<close>

text \<open>
  C1. \<^verbatim>\<open>priority_donation\<close> evaluated on the nested donation above, started at
  thread 2 as \<^verbatim>\<open>lock_acquire\<close> does for thread 1. Every donation list is sorted
  by current priority and every donor waits on a lock of the thread it donates to.
  The call returns after visiting threads 2 and 3. Thread 2 is raised from 20 to 50.
  Thread 3 reads the head of its list, thread 4 (priority 30), and stays at 30,
  although its donor thread 2 now has priority 50: the list is left as 4, 2 and the
  change of thread 2 does not reach thread 3.
\<close>

theorem priority_donation_misses_reordered_donor:
  "blocking_chain nested_donation 2 [2, 3] \<and>
   donations (threads nested_donation 2) = [1] \<and>
   donations (threads nested_donation 3) = [4, 2] \<and>
   by_priority nested_donation (donations (threads nested_donation 2)) \<and>
   by_priority nested_donation (donations (threads nested_donation 3)) \<and>
   donors_wait_on nested_donation 2 \<and> donors_wait_on nested_donation 3 \<and>
   priority (threads nested_donation 1) = 50 \<and>
   priority (threads nested_donation 2) = 20 \<and>
   priority (threads nested_donation 3) = 30 \<and>
   priority (threads nested_donation 4) = 30 \<and>
   priority_donation (Some 2) nested_donation =
     Some (Inr (foldl spec_donate nested_donation [2, 3])) \<and>
   priority (threads (foldl spec_donate nested_donation [2, 3]) 2) = 50 \<and>
   priority (threads (foldl spec_donate nested_donation [2, 3]) 3) = 30 \<and>
   donations (threads (foldl spec_donate nested_donation [2, 3]) 3) = [4, 2] \<and>
   priority (threads (foldl spec_donate nested_donation [2, 3]) 4) = 30"
proof -
  have ch: "blocking_chain nested_donation 2 [2, 3]"
    by (simp add: nested_donation_def example_defs)
  have r: "priority_donation (Some 2) nested_donation =
     Some (Inr (foldl spec_donate nested_donation [2, 3]))"
    by (rule priority_donation_chain [OF ch])
  have e: "donations (threads nested_donation 2) = [1]"
    "donations (threads nested_donation 3) = [4, 2]"
    "by_priority nested_donation (donations (threads nested_donation 2))"
    "by_priority nested_donation (donations (threads nested_donation 3))"
    "donors_wait_on nested_donation 2" "donors_wait_on nested_donation 3"
    "priority (threads nested_donation 1) = 50"
    "priority (threads nested_donation 2) = 20"
    "priority (threads nested_donation 3) = 30"
    "priority (threads nested_donation 4) = 30"
    "priority (threads (foldl spec_donate nested_donation [2, 3]) 2) = 50"
    "priority (threads (foldl spec_donate nested_donation [2, 3]) 3) = 30"
    "donations (threads (foldl spec_donate nested_donation [2, 3]) 3) = [4, 2]"
    "priority (threads (foldl spec_donate nested_donation [2, 3]) 4) = 30"
    by (simp_all add: nested_donation_def by_priority_def donors_wait_on_def example_defs)
  show ?thesis by (intro conjI) (rule ch r e)+
qed

text \<open>
  C2. When the current thread holds the lock and donation is enabled,
  \<^verbatim>\<open>lock_release\<close> returns normally exactly when the holder's blocking chain is
  finite (for a running holder the chain is the holder alone). Then the holder's
  donation list is what it was without the donors that wait on this lock, sorted by
  current priority; the holder's priority is its \<open>origin_priority\<close> if no donor is
  left and otherwise the maximum of that and the remaining donors' priorities; the
  lock has no holder; and the result is that of \<^verbatim>\<open>sema_up\<close> on the lock's
  semaphore, whose count is one more.
\<close>

theorem lock_release_drops_stale_donations:
  assumes held: "lock_held_by_current_thread l s" and don: "\<not> thread_mlfqs s"
  shows "(blocking_chain s (cur s) ts \<longrightarrow>
      (\<exists>s'. lock_release l s = Some (Inr s') \<and>
        s' = sema_up (LockSema l)
               (set_holder l None
                  (foldl spec_donate (set_donations (cur s) (kept_donations s l) s) ts)) \<and>
        donations (threads s' (cur s)) = kept_donations s l \<and>
        mset (kept_donations s l) =
          filter_mset (\<lambda>d. wait_on_lock (threads s d) \<noteq> Some l)
            (mset (donations (threads s (cur s)))) \<and>
        by_priority s (kept_donations s l) \<and>
        priority (threads s' (cur s)) =
          (if kept_donations s l = [] then origin_priority (threads s (cur s))
           else max (origin_priority (threads s (cur s)))
                    (Max ((\<lambda>d. priority (threads s d)) ` set (kept_donations s l)))) \<and>
        holder s' l = None \<and>
        sema_value (semas s' (LockSema l)) = sema_value (semas s (LockSema l)) + 1)) \<and>
     (lock_release l s = Some (Inr r) \<longrightarrow> (\<exists>us. blocking_chain s (cur s) us))"
proof (intro conjI impI)
  assume ch: "blocking_chain s (cur s) ts"
  let ?h = "cur s"
  let ?k = "kept_donations s l"
  let ?s2 = "set_donations ?h ?k s"
  let ?s3 = "foldl spec_donate ?s2 ts"
  let ?s' = "sema_up (LockSema l) (set_holder l None ?s3)"
  have r: "lock_release l s = Some (Inr ?s')" by (rule lock_release_chain [OF held don ch])
  have d: "donations (threads ?s' ?h) = ?k"
    by simp
  have m: "mset ?k = filter_mset (\<lambda>d. wait_on_lock (threads s d) \<noteq> Some l)
          (mset (donations (threads s ?h)))"
    by (simp add: kept_donations_def)
  obtain us where ts: "ts = ?h # us" using blocking_chain_hd [OF ch] by (cases ts) auto
  have "distinct ts" by (rule blocking_chain_distinct [OF ch])
  then have hn: "?h \<notin> set us" using ts by simp
  have "priority (threads ?s3 ?h) = spec_effective_priority ?s2 ?h"
    unfolding ts by (simp add: foldl_spec_donate_other [OF hn] spec_donate_priority)
  also have "\<dots> = (if ?k = [] then origin_priority (threads s ?h)
         else max (origin_priority (threads s ?h)) (priority (threads s (hd ?k))))"
    by (simp add: spec_effective_priority_def)
  also have "\<dots> = (if ?k = [] then origin_priority (threads s ?h)
         else max (origin_priority (threads s ?h))
                  (Max ((\<lambda>d. priority (threads s d)) ` set ?k)))"
    using by_priority_hd_Max [OF by_priority_kept_donations, of s l] by simp
  finally have p: "priority (threads ?s' ?h) =
        (if ?k = [] then origin_priority (threads s ?h)
         else max (origin_priority (threads s ?h))
                  (Max ((\<lambda>d. priority (threads s d)) ` set ?k)))"
    by simp
  have ho: "holder ?s' l = None" by simp
  have v: "sema_value (semas ?s' (LockSema l)) = sema_value (semas s (LockSema l)) + 1"
    by (simp add: sema_up_value)
  show "\<exists>s'. lock_release l s = Some (Inr s') \<and>
        s' = sema_up (LockSema l)
               (set_holder l None
                  (foldl spec_donate (set_donations (cur s) (kept_donations s l) s) ts)) \<and>
        donations (threads s' (cur s)) = kept_donations s l \<and>
        mset (kept_donations s l) =
          filter_mset (\<lambda>d. wait_on_lock (threads s d) \<noteq> Some l)
            (mset (donations (threads s (cur s)))) \<and>
        by_priority s (kept_donations s l) \<and>
        priority (threads s' (cur s)) =
          (if kept_donations s l = [] then origin_priority (threads s (cur s))
           else max (origin_priority (threads s (cur s)))
                    (Max ((\<lambda>d. priority (threads s d)) ` set (kept_donations s l)))) \<and>
        holder s' l = None \<and>
        sema_value (semas s' (LockSema l)) = sema_value (semas s (LockSema l)) + 1"
    using r d m p ho v by_priority_kept_donations [of s l] by blast
next
  assume "lock_release l s = Some (Inr r)"
  then show "\<exists>us. blocking_chain s (cur s) us"
    by (rule lock_release_returns_chain [OF held don])
qed

theorem lock_release_drops_stale_donations_witness:
  "lock_held_by_current_thread 0 donor_blocked \<and> \<not> thread_mlfqs donor_blocked \<and>
   blocking_chain donor_blocked (cur donor_blocked) [1] \<and>
   priority (threads donor_blocked 1) = 30 \<and>
   (\<exists>s'. lock_release 0 donor_blocked = Some (Inr s') \<and>
         donations (threads s' 1) = [] \<and> priority (threads s' 1) = 10 \<and>
         holder s' 0 = None \<and> sema_value (semas s' (LockSema 0)) = 1)"
proof -
  have h: "lock_held_by_current_thread 0 donor_blocked" "\<not> thread_mlfqs donor_blocked"
    "blocking_chain donor_blocked (cur donor_blocked) [1]"
    by (simp_all add: donor_blocked_def example_defs)
  have e: "cur donor_blocked = 1" "kept_donations donor_blocked 0 = []"
    "origin_priority (threads donor_blocked 1) = 10" "priority (threads donor_blocked 1) = 30"
    "sema_value (semas donor_blocked (LockSema 0)) = 0"
    by (simp_all add: donor_blocked_def kept_donations_def example_defs)
  from lock_release_drops_stale_donations [OF h(1,2), of "[1]"] h(3)
  obtain s' where "lock_release 0 donor_blocked = Some (Inr s')"
    "donations (threads s' (cur donor_blocked)) = kept_donations donor_blocked 0"
    "priority (threads s' (cur donor_blocked)) =
       (if kept_donations donor_blocked 0 = [] then origin_priority (threads donor_blocked (cur donor_blocked))
        else max (origin_priority (threads donor_blocked (cur donor_blocked)))
                 (Max ((\<lambda>d. priority (threads donor_blocked d)) ` set (kept_donations donor_blocked 0))))"
    "holder s' 0 = None"
    "sema_value (semas s' (LockSema 0)) = sema_value (semas donor_blocked (LockSema 0)) + 1"
    by blast
  then show ?thesis using h e by auto
qed

text \<open>
  C3. Every \<^verbatim>\<open>sema_up\<close> increments the count and ends with a preemption request.
  The order in which it serves the waiters is the waiter list sorted by current
  priority, descending. When the waiter list is not empty, the thread it wakes is the
  head of that order, whose priority is the maximum over the waiters; that thread is
  removed from the list and marked runnable, and no other thread is touched. Any
  number \<open>k\<close> of successive calls, up to the number of waiters, wakes the first \<open>k\<close>
  threads of that order, one after the other.
\<close>

theorem sema_up_wakes_highest_priority:
  "sema_value (semas (sema_up p s) p) = sema_value (semas s p) + 1 \<and>
   last (sched_calls (sema_up p s)) = Preempt \<and>
   by_priority s (wake_order s p) \<and>
   mset (wake_order s p) = mset (waiters (semas s p)) \<and>
   (waiters (semas s p) \<noteq> [] \<longrightarrow>
      priority (threads s (hd (wake_order s p))) =
        Max ((\<lambda>t. priority (threads s t)) ` set (waiters (semas s p))) \<and>
      waiters (semas (sema_up p s) p) = tl (wake_order s p) \<and>
      status (threads (sema_up p s) (hd (wake_order s p))) = THREAD_READY \<and>
      (\<forall>u. u \<noteq> hd (wake_order s p) \<longrightarrow> threads (sema_up p s) u = threads s u) \<and>
      sched_calls (sema_up p s) = sched_calls s @ [Unblock (hd (wake_order s p)), Preempt]) \<and>
   (\<forall>k \<le> length (waiters (semas s p)).
      sched_calls ((sema_up p ^^ k) s) =
        sched_calls s @ concat (map (\<lambda>t. [Unblock t, Preempt]) (take k (wake_order s p))))"
  using sema_up_iterated [of _ s p]
  by (simp add: sema_up_value sema_up_last_call by_priority_wake_order wake_order_hd_Max
      sema_up_waiters sema_up_status sema_up_others sema_up_calls)
     (simp add: wake_order_def)

lemma three_waiters_order: "wake_order three_waiters (SemaAt 0) = [1, 2, 3]"
  by (simp add: wake_order_def three_waiters_def list_sort_def cmp_priority_def
      blocked_thread_def new_thread_def boot_def idle_thread_def)

theorem sema_up_wakes_highest_priority_witness:
  "waiters (semas three_waiters (SemaAt 0)) \<noteq> [] \<and>
   (3::nat) \<le> length (waiters (semas three_waiters (SemaAt 0))) \<and>
   waiters (semas (sema_up (SemaAt 0) three_waiters) (SemaAt 0)) = [2, 3] \<and>
   status (threads (sema_up (SemaAt 0) three_waiters) 1) = THREAD_READY \<and>
   sched_calls ((sema_up (SemaAt 0) ^^ 3) three_waiters) =
     [Unblock 1, Preempt, Unblock 2, Preempt, Unblock 3, Preempt]"
proof -
  have ne: "waiters (semas three_waiters (SemaAt 0)) \<noteq> []"
    and len: "(3::nat) \<le> length (waiters (semas three_waiters (SemaAt 0)))"
    and calls: "sched_calls three_waiters = []"
    by (simp_all add: three_waiters_def boot_def)
  note c = sema_up_wakes_highest_priority [of "SemaAt 0" three_waiters]
  from c ne have one:
    "waiters (semas (sema_up (SemaAt 0) three_waiters) (SemaAt 0)) =
       tl (wake_order three_waiters (SemaAt 0))"
    "status (threads (sema_up (SemaAt 0) three_waiters)
        (hd (wake_order three_waiters (SemaAt 0)))) = THREAD_READY"
    by blast+
  from c len have three:
    "sched_calls ((sema_up (SemaAt 0) ^^ 3) three_waiters) =
       sched_calls three_waiters @
       concat (map (\<lambda>t. [Unblock t, Preempt]) (take 3 (wake_order three_waiters (SemaAt 0))))"
    by blast
  show ?thesis using ne len one three calls by (simp add: three_waiters_order)
qed

text \<open>
  C7. \<^verbatim>\<open>sema_try_down\<close> and \<^verbatim>\<open>lock_try_acquire\<close> take no suspension and
  always return. When the count is 0, \<^verbatim>\<open>sema_try_down\<close> returns false and the
  whole kernel state is as before; otherwise it returns true and the count is one
  less (without wrapping). When the lock's count is 0, \<^verbatim>\<open>lock_try_acquire\<close>
  returns false and the whole state, holder included, is as before; otherwise it
  returns true, the count is one less and the holder is the calling thread.
\<close>

theorem try_operations_no_side_effects:
  "(sema_value (semas s p) = 0 \<longrightarrow> sema_try_down p s = (False, s)) \<and>
   (sema_value (semas s p) \<noteq> 0 \<longrightarrow>
      sema_try_down p s = (True, set_sema_value p (sema_value (semas s p) - 1) s) \<and>
      unat (sema_value (semas s p) - 1) + 1 = unat (sema_value (semas s p))) \<and>
   (\<not> lock_held_by_current_thread l s \<and> sema_value (semas s (LockSema l)) = 0 \<longrightarrow>
      lock_try_acquire l s = Inr (False, s)) \<and>
   (\<not> lock_held_by_current_thread l s \<and> sema_value (semas s (LockSema l)) \<noteq> 0 \<longrightarrow>
      lock_try_acquire l s =
        Inr (True, set_holder l (Some (cur s))
                     (set_sema_value (LockSema l) (sema_value (semas s (LockSema l)) - 1) s)))"
  by (simp add: sema_try_down_zero sema_try_down_pos unat_dec_suc lock_try_acquire_def
      set_sema_value_def)

theorem try_operations_no_side_effects_witness:
  "sema_try_down (SemaAt 0) boot = (False, boot) \<and>
   lock_try_acquire 0 boot = Inr (False, boot) \<and>
   fst (sema_try_down (SemaAt 0) one_unit) \<and>
   sema_value (semas (snd (sema_try_down (SemaAt 0) one_unit)) (SemaAt 0)) = 0 \<and>
   (case lock_try_acquire 0 one_unit of
      Inl e \<Rightarrow> False
    | Inr (ok, s') \<Rightarrow> ok \<and> holder s' 0 = Some 0 \<and> sema_value (semas s' (LockSema 0)) = 0)"
  using try_operations_no_side_effects [of boot "SemaAt 0" 0]
    try_operations_no_side_effects [of one_unit "SemaAt 0" 0]
  by (simp add: boot_def one_unit_def lock_init_def sema_init_def set_sema_value_def
      set_waiters_def set_holder_def lock_held_by_current_thread_def)

text \<open>
  C8. \<^verbatim>\<open>cmp_priority_by_sema\<close> returns false whenever the private semaphore of
  either argument has no waiter. When both have one, the comparison of the two front
  waiters is computed but not returned: the function has no defined result.
\<close>

theorem cmp_priority_by_sema_missing_return:
  "(waiters (semas s (WaiterSema a)) = [] \<or> waiters (semas s (WaiterSema b)) = [] \<longrightarrow>
      cmp_priority_by_sema s a b = Some False) \<and>
   (waiters (semas s (WaiterSema a)) \<noteq> [] \<and> waiters (semas s (WaiterSema b)) \<noteq> [] \<longrightarrow>
      cmp_priority_by_sema s a b = None)"
  by (auto simp: cmp_priority_by_sema_def)

theorem cmp_priority_by_sema_missing_return_witness:
  "cmp_priority_by_sema two_cond_waiters 2 1 = None \<and>
   cmp_priority_by_sema two_cond_waiters 2 3 = Some False \<and>
   cmp_priority_by_sema two_cond_waiters 3 1 = Some False"
  using cmp_priority_by_sema_missing_return [of two_cond_waiters 2 1]
    cmp_priority_by_sema_missing_return [of two_cond_waiters 2 3]
    cmp_priority_by_sema_missing_return [of two_cond_waiters 3 1]
  by (simp add: two_cond_waiters_def boot_def)

text \<open>
  C5. The loop of \<^verbatim>\<open>sema_down\<close> ends at once when the count is not 0. When it is
  0, the caller is inserted into the waiters (the list gains exactly the caller and
  stays in descending priority order if it was), the caller is suspended, and on
  resumption the loop starts again on the state found then. \<^verbatim>\<open>sema_down\<close> is that
  loop with interrupts off, followed by one decrement: whenever it returns, the loop
  was left in a state with a count other than 0, and the count returned is exactly
  one less.
\<close>

theorem sema_down_waits_then_decrements_once:
  "(sema_value (semas s p) \<noteq> 0 \<longrightarrow> sema_down_loop p w s = Some (w, s)) \<and>
   (sema_value (semas s p) = 0 \<longrightarrow>
      sema_down_loop p w s =
        (case thread_block w
                (set_waiters p
                   (list_insert_ordered (cmp_priority s) (cur s) (waiters (semas s p))) s) of
           None \<Rightarrow> None
         | Some (w', s') \<Rightarrow> sema_down_loop p w' s')) \<and>
   mset (list_insert_ordered (cmp_priority s) (cur s) (waiters (semas s p))) =
     add_mset (cur s) (mset (waiters (semas s p))) \<and>
   (by_priority s (waiters (semas s p)) \<longrightarrow>
      by_priority s (list_insert_ordered (cmp_priority s) (cur s) (waiters (semas s p)))) \<and>
   (\<not> in_intr_context s \<longrightarrow>
      sema_down p w s =
        (case sema_down_loop p w (s\<lparr>intr := INTR_OFF\<rparr>) of
           None \<Rightarrow> None
         | Some (w', s2) \<Rightarrow>
             Some (Inr (w', (set_sema_value p (sema_value (semas s2 p) - 1) s2)
                              \<lparr>intr := intr s\<rparr>)))) \<and>
   (sema_down p w s = Some (Inr (w', s')) \<longrightarrow>
      (\<exists>s2. sema_down_loop p w (s\<lparr>intr := INTR_OFF\<rparr>) = Some (w', s2) \<and>
            sema_value (semas s2 p) \<noteq> 0 \<and>
            s' = (set_sema_value p (sema_value (semas s2 p) - 1) s2)\<lparr>intr := intr s\<rparr> \<and>
            unat (sema_value (semas s' p)) + 1 = unat (sema_value (semas s2 p))))"
  using sema_down_returns [of p w s w' s']
  by (auto simp: sema_down_loop_exit sema_down_loop_turn by_priority_list_insert_ordered
      sema_down_unfold)

theorem sema_down_waits_then_decrements_once_witness:
  "sema_value (semas caller_at_zero (SemaAt 0)) = 0 \<and>
   \<not> in_intr_context caller_at_zero \<and>
   by_priority caller_at_zero (waiters (semas caller_at_zero (SemaAt 0))) \<and>
   (\<exists>s'. sema_down (SemaAt 0) [up_then_taken 0 2 (SemaAt 0), up_by 0 (SemaAt 0)] caller_at_zero
           = Some (Inr ([], s')) \<and>
         sema_value (semas s' (SemaAt 0)) = 0 \<and>
         sched_calls s' = [Block 1, Unblock 1, Preempt, Block 1, Unblock 1, Preempt] \<and>
         (\<exists>s2. sema_down_loop (SemaAt 0) [up_then_taken 0 2 (SemaAt 0), up_by 0 (SemaAt 0)]
                  (caller_at_zero\<lparr>intr := INTR_OFF\<rparr>) = Some ([], s2) \<and>
               sema_value (semas s2 (SemaAt 0)) = 1))"
proof -
  let ?w = "[up_then_taken 0 2 (SemaAt 0), up_by 0 (SemaAt 0)]"
  have pre: "sema_value (semas caller_at_zero (SemaAt 0)) = 0" "\<not> in_intr_context caller_at_zero"
    "by_priority caller_at_zero (waiters (semas caller_at_zero (SemaAt 0)))"
    by (simp_all add: caller_at_zero_def by_priority_def example_defs)
  have ex: "\<exists>s'. sema_down (SemaAt 0) ?w caller_at_zero = Some (Inr ([], s')) \<and>
         sema_value (semas s' (SemaAt 0)) = 0 \<and>
         sched_calls s' = [Block 1, Unblock 1, Preempt, Block 1, Unblock 1, Preempt]"
    by (simp add: sema_down_unfold sema_down_loop_turn sema_down_loop_exit thread_block_def
        up_by_def up_then_taken_def sema_up_def sema_try_down_def Let_def caller_at_zero_def example_defs)
  then obtain s' where s': "sema_down (SemaAt 0) ?w caller_at_zero = Some (Inr ([], s'))"
    "sema_value (semas s' (SemaAt 0)) = 0"
    "sched_calls s' = [Block 1, Unblock 1, Preempt, Block 1, Unblock 1, Preempt]"
    by blast
  from sema_down_waits_then_decrements_once [of caller_at_zero "SemaAt 0" ?w "[]" s'] s'(1)
  obtain s2 where s2: "sema_down_loop (SemaAt 0) ?w (caller_at_zero\<lparr>intr := INTR_OFF\<rparr>) = Some ([], s2)"
    "unat (sema_value (semas s' (SemaAt 0))) + 1 = unat (sema_value (semas s2 (SemaAt 0)))"
    by blast
  from s2(2) s'(2) have "unat (sema_value (semas s2 (SemaAt 0))) = unat (1 :: 32 word)" by simp
  then have "sema_value (semas s2 (SemaAt 0)) = 1" by (simp only: word_unat_eq_iff)
  then show ?thesis using pre s' s2(1) by blast
qed

text \<open>
  C6. The count is an unsigned word, so it is never negative. For every interleaving
  of ups, try-downs and turns of the \<^verbatim>\<open>sema_down\<close> loop on a semaphore initialised
  to \<open>v\<close>, the completed downs plus the current count never exceed the completed
  ups plus \<open>v\<close>. \<^verbatim>\<open>sema_try_down\<close> decrements only from a count other than 0 and
  otherwise changes nothing; \<^verbatim>\<open>sema_down\<close> decrements only after its loop was left
  with a count other than 0; and the loop of \<^verbatim>\<open>sema_down\<close> is made of the turns
  that the interleavings use.
\<close>

theorem sema_value_counting_invariant:
  "completed_downs (sema_run p v s evs) +
     unat (sema_value (semas (state (sema_run p v s evs)) p))
     \<le> completed_ups (sema_run p v s evs) + unat v \<and>
   completed_downs (sema_run p v s evs) \<le> completed_ups (sema_run p v s evs) + unat v \<and>
   (fst (sema_try_down p s) \<longrightarrow>
      sema_value (semas s p) \<noteq> 0 \<and>
      unat (sema_value (semas (snd (sema_try_down p s)) p)) + 1 = unat (sema_value (semas s p))) \<and>
   (\<not> fst (sema_try_down p s) \<longrightarrow> snd (sema_try_down p s) = s) \<and>
   (sema_down p w s = Some (Inr (w', s')) \<longrightarrow>
      (\<exists>s2. sema_down_loop p w (s\<lparr>intr := INTR_OFF\<rparr>) = Some (w', s2) \<and>
            sema_value (semas s2 p) \<noteq> 0 \<and>
            unat (sema_value (semas s' p)) + 1 = unat (sema_value (semas s2 p)))) \<and>
   sema_down_loop p w s =
     (case sema_down_turn p s of
        Inl s1 \<Rightarrow> (case thread_block w s1 of
                     None \<Rightarrow> None
                   | Some (w', s') \<Rightarrow> sema_down_loop p w' s')
      | Inr s2 \<Rightarrow> Some (w, s)) \<and>
   (sema_value (semas s p) \<noteq> 0 \<longrightarrow>
      sema_down_turn p s = Inr (set_sema_value p (sema_value (semas s p) - 1) s))"
proof -
  have inv: "completed_downs (sema_run p v s evs) +
     unat (sema_value (semas (state (sema_run p v s evs)) p))
     \<le> completed_ups (sema_run p v s evs) + unat v"
    by (rule sema_run_invariant)
  have tr: "(fst (sema_try_down p s) \<longrightarrow>
      sema_value (semas s p) \<noteq> 0 \<and>
      unat (sema_value (semas (snd (sema_try_down p s)) p)) + 1 = unat (sema_value (semas s p))) \<and>
   (\<not> fst (sema_try_down p s) \<longrightarrow> snd (sema_try_down p s) = s)"
    by (cases "sema_value (semas s p) = 0")
       (simp_all add: sema_try_down_zero sema_try_down_pos unat_dec_suc)
  have down: "sema_down p w s = Some (Inr (w', s')) \<longrightarrow>
      (\<exists>s2. sema_down_loop p w (s\<lparr>intr := INTR_OFF\<rparr>) = Some (w', s2) \<and>
            sema_value (semas s2 p) \<noteq> 0 \<and>
            unat (sema_value (semas s' p)) + 1 = unat (sema_value (semas s2 p)))"
    using sema_down_returns [of p w s w' s'] by auto
  have turn: "sema_value (semas s p) \<noteq> 0 \<longrightarrow>
      sema_down_turn p s = Inr (set_sema_value p (sema_value (semas s p) - 1) s)"
    by (simp add: sema_down_turn_def)
  show ?thesis
    using inv tr down turn sema_down_loop_by_turn [of p w s] by (intro conjI) simp_all
qed

theorem sema_value_counting_invariant_witness:
  "completed_ups (sema_run (SemaAt 0) 1 boot
       [Ev_try_down 1, Ev_down_turn 2, Ev_up 1, Ev_down_turn 2, Ev_try_down 3]) = 1 \<and>
   completed_downs (sema_run (SemaAt 0) 1 boot
       [Ev_try_down 1, Ev_down_turn 2, Ev_up 1, Ev_down_turn 2, Ev_try_down 3]) = 2 \<and>
   sema_value (semas (state (sema_run (SemaAt 0) 1 boot
       [Ev_try_down 1, Ev_down_turn 2, Ev_up 1, Ev_down_turn 2, Ev_try_down 3])) (SemaAt 0)) = 0 \<and>
   fst (sema_try_down (SemaAt 0) one_unit) \<and>
   \<not> fst (sema_try_down (SemaAt 0) boot) \<and>
   snd (sema_try_down (SemaAt 0) boot) = boot"
proof -
  let ?evs = "[Ev_try_down 1, Ev_down_turn 2, Ev_up 1, Ev_down_turn 2, Ev_try_down 3]"
  have run: "completed_ups (sema_run (SemaAt 0) 1 boot ?evs) = 1"
    "completed_downs (sema_run (SemaAt 0) 1 boot ?evs) = 2"
    "sema_value (semas (state (sema_run (SemaAt 0) 1 boot ?evs)) (SemaAt 0)) = 0"
    by (simp_all add: sema_run_def sema_init_def sema_try_down_def sema_down_turn_def
        sema_up_def Let_def example_defs)
  have t: "fst (sema_try_down (SemaAt 0) one_unit)" "\<not> fst (sema_try_down (SemaAt 0) boot)"
    by (simp_all add: sema_try_down_def one_unit_def lock_init_def sema_init_def example_defs)
  from sema_value_counting_invariant [of "SemaAt 0" 1 boot ?evs "[]" "[]" boot] t(2)
  have "snd (sema_try_down (SemaAt 0) boot) = boot" by blast
  then show ?thesis using run t by simp
qed

text \<open>
  C9. On a finite blocking chain in which every donor of a chain thread is blocked
  on a lock that thread holds (the data-model invariant of \<open>donations\<close>),
  \<^verbatim>\<open>priority_donation\<close> returns, and a second call on the resulting state returns
  the same state: every priority is the same after both calls.
\<close>

theorem priority_donation_twice_same_priority:
  assumes "blocking_chain s t ts" "\<forall>u \<in> set ts. donors_wait_on s u"
  shows "priority_donation (Some t) s = Some (Inr (foldl spec_donate s ts)) \<and>
         priority_donation (Some t) (foldl spec_donate s ts) = Some (Inr (foldl spec_donate s ts))"
proof -
  let ?s1 = "foldl spec_donate s ts"
  have "blocking_chain ?s1 t ts" using assms(1) by simp
  then have "priority_donation (Some t) ?s1 = Some (Inr (foldl spec_donate ?s1 ts))"
    by (rule priority_donation_chain)
  moreover have "foldl spec_donate ?s1 ts = ?s1"
    by (rule foldl_spec_donate_noop) (simp add: donation_fixpoint [OF assms])
  ultimately show ?thesis using priority_donation_chain [OF assms(1)] by simp
qed

theorem priority_donation_twice_same_priority_witness:
  "blocking_chain donation_chain 2 [2, 3] \<and>
   donors_wait_on donation_chain 2 \<and> donors_wait_on donation_chain 3 \<and>
   priority_donation (Some 2) donation_chain =
     Some (Inr (foldl spec_donate donation_chain [2, 3])) \<and>
   priority_donation (Some 2) (foldl spec_donate donation_chain [2, 3]) =
     Some (Inr (foldl spec_donate donation_chain [2, 3])) \<and>
   priority (threads (foldl spec_donate donation_chain [2, 3]) 2) = 50"
  using priority_donation_twice_same_priority [of donation_chain 2 "[2, 3]"] donation_chain_eval
  by simp

text \<open>
  C10. Whenever \<^verbatim>\<open>lock_acquire\<close> returns, the lock's holder is the calling thread,
  the calling thread's \<open>wait_on_lock\<close> is none, and the caller is still the running
  thread. On the uncontended path (the count is not 0) it returns at once, and the
  write that clears \<open>wait_on_lock\<close> is part of the result there too.
\<close>

theorem lock_acquire_sets_holder_clears_wait_on_lock:
  "(lock_acquire l w s = Some (Inr (w', s')) \<longrightarrow>
      holder s' l = Some (cur s) \<and> wait_on_lock (threads s' (cur s)) = None \<and> cur s' = cur s) \<and>
   (\<not> in_intr_context s \<and> \<not> lock_held_by_current_thread l s \<and>
    sema_value (semas s (LockSema l)) \<noteq> 0 \<longrightarrow>
      lock_acquire l w s =
        Some (Inr (w, set_wait_on_lock (cur s) None
                        (set_holder l (Some (cur s))
                           (set_sema_value (LockSema l)
                              (sema_value (semas s (LockSema l)) - 1) s)))))"
  using lock_acquire_returns [of l w s w' s'] by (simp add: lock_acquire_fast)

theorem lock_acquire_sets_holder_clears_wait_on_lock_witness:
  "(\<exists>s'. lock_acquire 0 [release_by 1 0] contended = Some (Inr ([], s')) \<and>
         holder s' 0 = Some 2 \<and> wait_on_lock (threads s' 2) = None \<and> cur s' = 2) \<and>
   wait_on_lock (threads stale_wait 0) = Some 7 \<and>
   (\<exists>s'. lock_acquire 0 [] stale_wait = Some (Inr ([], s')) \<and>
         holder s' 0 = Some 0 \<and> wait_on_lock (threads s' 0) = None)"
proof -
  from contended_acquire obtain s' where
    s': "lock_acquire 0 [release_by 1 0] contended = Some (Inr ([], s'))" by blast
  have c: "cur contended = 2" by (simp add: contended_def)
  from lock_acquire_sets_holder_clears_wait_on_lock [of 0 "[release_by 1 0]" contended "[]" s'] s' c
  have slow: "holder s' 0 = Some 2 \<and> wait_on_lock (threads s' 2) = None \<and> cur s' = 2"
    by simp
  let ?f = "set_wait_on_lock (cur stale_wait) None
              (set_holder 0 (Some (cur stale_wait))
                 (set_sema_value (LockSema 0)
                    (sema_value (semas stale_wait (LockSema 0)) - 1) stale_wait))"
  have pre: "\<not> in_intr_context stale_wait" "\<not> lock_held_by_current_thread 0 stale_wait"
    "sema_value (semas stale_wait (LockSema 0)) \<noteq> 0" "cur stale_wait = 0"
    "wait_on_lock (threads stale_wait 0) = Some 7"
    by (simp_all add: stale_wait_def one_unit_def lock_init_def sema_init_def example_defs)
  from lock_acquire_sets_holder_clears_wait_on_lock [of 0 "[]" stale_wait "[]" ?f] pre
  have fast: "lock_acquire 0 [] stale_wait = Some (Inr ([], ?f))"
    "holder ?f 0 = Some 0 \<and> wait_on_lock (threads ?f 0) = None"
    by simp_all
  show ?thesis using s' slow pre(5) fast by blast
qed

text \<open>
  C4. \<^verbatim>\<open>cond_signal\<close> on a condition variable with two waiters, each with a
  thread blocked on its private semaphore, has no defined result: the sort needs a
  comparison that \<^verbatim>\<open>cmp_priority_by_sema\<close> never returns. And \<^verbatim>\<open>cond_wait\<close>
  puts the waiter of a priority-60 caller behind the waiters of the threads with
  priorities 10 and 50: its private semaphore has no waiter yet, so every comparison
  returns false and the waiter goes to the back.
\<close>

theorem cond_signal_undefined_cond_wait_appends:
  "cond_waiters two_cond_waiters 0 = [1, 2] \<and>
   waiters (semas two_cond_waiters (WaiterSema 1)) = [1] \<and>
   waiters (semas two_cond_waiters (WaiterSema 2)) = [2] \<and>
   priority (threads two_cond_waiters 1) = 10 \<and>
   priority (threads two_cond_waiters 2) = 50 \<and>
   cond_signal 0 0 two_cond_waiters = Inl Undefined_value \<and>
   priority (threads urgent_waiter (cur urgent_waiter)) = 60 \<and>
   map_sum id (\<lambda>s'. cond_waiters s' 0) (cond_wait_enqueue 0 3 urgent_waiter) = Inr [1, 2, 3]"
  by (simp add: cond_signal_def cond_wait_enqueue_def list_sort_u_def cmp_priority_by_sema_def
      sema_init_def urgent_waiter_def two_cond_waiters_def example_defs)

end
